theory Spec2Isabelle
  imports Main "HOL-Library.Sublist"
begin

section \<open>Bytes and byte strings\<close>

text \<open>
  The source is Python 2: \<^verbatim>\<open>b'...'\<close> and \<^verbatim>\<open>'...'\<close> are both byte strings, modelled as
  \<^typ>\<open>string\<close>. A single character is a string of length one and the empty string is
  what a read returns at the end of the stream.
\<close>

abbreviation CR :: string where "CR \<equiv> [CHR 0x0D]"
abbreviation LF :: string where "LF \<equiv> [CHR 0x0A]"
abbreviation NUL :: string where "NUL \<equiv> [CHR 0x00]"
abbreviation SUB :: string where "SUB \<equiv> [CHR 0x1A]"
abbreviation DQUOTE :: string where "DQUOTE \<equiv> [CHR 0x22]"

text \<open>
  Python's \<^verbatim>\<open>x in s\<close> for two byte strings: \<^verbatim>\<open>x\<close> occurs in \<^verbatim>\<open>s\<close> as a contiguous
  substring; the empty string occurs in every string.
\<close>

fun py_in :: "string \<Rightarrow> string \<Rightarrow> bool" where
  "py_in x [] = (x = [])"
| "py_in x (y # ys) = (prefix x (y # ys) \<or> py_in x ys)"

section \<open>RawFile and TextFileBase\<close>

text \<open>
  The fields of \<^verbatim>\<open>RawFile\<close>. The stream \<^verbatim>\<open>_fhandle\<close> is the list of bytes not yet
  read, \<^verbatim>\<open>read(1)\<close> takes the first of them; the bytes written to it are collected in
  \<open>written\<close>. The streams here are in memory and do not fail, so \<^verbatim>\<open>safe_io\<close> never
  raises.
\<close>

record raw_file =
  fhandle :: string
  written :: string
  filetype :: string
  mode :: string

text \<open>
  The fields \<^verbatim>\<open>TextFileBase\<close> adds; \<^verbatim>\<open>char\<close> and \<^verbatim>\<open>last\<close> are \<open>cur_char\<close> and
  \<open>last_char\<close>. The class attribute \<^verbatim>\<open>soft_sep\<close> is a field, set by the constructor of
  each class.
\<close>

record text_file = raw_file +
  width :: int
  col :: int
  next_char :: string
  cur_char :: string
  last_char :: string
  soft_sep :: string

text \<open>
  \<^verbatim>\<open>self.next_char, self.char, self.last = (self._fhandle.read(1), self.next_char, self.char)\<close>
\<close>

definition shift_lookahead :: "text_file \<Rightarrow> text_file" where
  "shift_lookahead f =
     f\<lparr>next_char := take 1 (fhandle f), cur_char := next_char f, last_char := cur_char f,
       fhandle := drop 1 (fhandle f)\<rparr>"

lemma shift_lookahead_consumes:
  assumes "next_char f \<noteq> ''''"
  shows "length (next_char (shift_lookahead f)) + length (fhandle (shift_lookahead f))
           < length (next_char f) + length (fhandle f)"
proof (cases "fhandle f")
  case Nil
  with assms show ?thesis by (simp add: shift_lookahead_def)
next
  case (Cons b bs)
  with assms show ?thesis by (cases "next_char f") (simp_all add: shift_lookahead_def)
qed

function input_chars_loop :: "int \<Rightarrow> string list \<Rightarrow> text_file \<Rightarrow> string list \<times> text_file" where
  "input_chars_loop num s f =
     (if num > -1 \<and> int (length s) \<ge> num then (s, f)
      else if next_char f = SUB \<or> next_char f = '''' then (s, f)
      else input_chars_loop num (s @ [next_char f]) (shift_lookahead f))"
  by pat_completeness auto
termination
  by (relation "measure (\<lambda>(num, s, f). length (next_char f) + length (fhandle f))")
     (auto intro: shift_lookahead_consumes)

declare input_chars_loop.simps [simp del]

definition input_chars :: "int \<Rightarrow> text_file \<Rightarrow> string \<times> text_file" where
  "input_chars num f = (case input_chars_loop num [] f of (s, f') \<Rightarrow> (concat s, f'))"

definition read_one :: "text_file \<Rightarrow> string \<times> text_file" where
  "read_one f = input_chars 1 f"

lemma read_one_eq:
  "read_one f =
     (if next_char f = SUB \<or> next_char f = '''' then ('''', f)
      else (next_char f, shift_lookahead f))"
  by (simp add: read_one_def input_chars_def input_chars_loop.simps [of 1])

lemma read_one_consumes:
  assumes "read_one f = (c, f1)" and "c \<noteq> ''''"
  shows "length (next_char f1) + length (fhandle f1) < length (next_char f) + length (fhandle f)"
  using assms by (auto simp: read_one_eq intro: shift_lookahead_consumes split: if_splits)

function read_line_loop :: "string list \<Rightarrow> text_file \<Rightarrow> string \<times> string option \<times> text_file" where
  "read_line_loop out f =
     (case read_one f of (c, f1) \<Rightarrow>
        if c = '''' \<or> c = CR then (concat out, Some c, f1)
        else if length (out @ [c]) = 255
          then (concat (out @ [c]), (if next_char f1 = CR then Some CR else None), f1)
          else read_line_loop (out @ [c]) f1)"
  by pat_completeness auto
termination
  by (relation "measure (\<lambda>(out, f). length (next_char f) + length (fhandle f))")
     (auto dest: read_one_consumes [OF sym])

declare read_line_loop.simps [simp del]

definition read_line :: "text_file \<Rightarrow> string \<times> string option \<times> text_file" where
  "read_line f = read_line_loop [] f"

text \<open>
  \<^verbatim>\<open>TextFileBase.write\<close>, first loop: the printable width of the first line of \<open>s\<close> and
  whether a CR or LF ends it.
\<close>

fun scan_width :: "string \<Rightarrow> int \<Rightarrow> int \<times> bool" where
  "scan_width [] s_width = (s_width, False)"
| "scan_width (c # cs) s_width =
     (if [c] = CR \<or> [c] = LF then (s_width, True)
      else scan_width cs (if (of_char c :: nat) \<ge> 32 then s_width + 1 else s_width))"

text \<open>
  \<^verbatim>\<open>TextFileBase.write\<close>, second loop: every character goes to the stream; CR resets
  \<open>col\<close>, a character of code 32 or more advances it, and 257 wraps to 1.
\<close>

definition write_char :: "char \<Rightarrow> text_file \<Rightarrow> text_file" where
  "write_char c f =
     (if [c] = CR then f\<lparr>written := written f @ [c], col := 1\<rparr>
      else if (of_char c :: nat) \<ge> 32
        then (if col f + 1 = 257 then f\<lparr>written := written f @ [c], col := 1\<rparr>
              else f\<lparr>written := written f @ [c], col := col f + 1\<rparr>)
        else f\<lparr>written := written f @ [c]\<rparr>)"

fun write_chars :: "string \<Rightarrow> text_file \<Rightarrow> text_file" where
  "write_chars [] f = f"
| "write_chars (c # cs) f = write_chars cs (write_char c f)"

lemma scan_width_newline: "snd (scan_width (s @ CR) w)"
  by (induction s arbitrary: w) simp_all

function TextFileBase_write :: "string \<Rightarrow> bool \<Rightarrow> text_file \<Rightarrow> text_file"
  and TextFileBase_write_line :: "string \<Rightarrow> text_file \<Rightarrow> text_file" where
  "TextFileBase_write s can_break f =
     write_chars s
       (if can_break \<and> width f \<noteq> 255 \<and> col f \<noteq> 1
           \<and> col f - 1 + fst (scan_width s 0) > width f \<and> \<not> snd (scan_width s 0)
        then (TextFileBase_write_line '''' f)\<lparr>col := 1\<rparr>
        else f)"
| "TextFileBase_write_line s f = TextFileBase_write (s @ CR) True f"
  by pat_completeness auto
termination
  by (relation "measure (\<lambda>x. case x of
          Inl (s, can_break, f) \<Rightarrow> (if snd (scan_width s 0) then 0 else 2)
        | Inr (s, f) \<Rightarrow> 1)")
     (auto simp: scan_width_newline)

declare TextFileBase_write.simps [simp del] TextFileBase_write_line.simps [simp del]

definition eof :: "text_file \<Rightarrow> bool" where
  "eof f = (if mode f = ''A'' \<or> mode f = ''O'' then False
            else next_char f = '''' \<or> next_char f = SUB)"

definition set_width :: "int \<Rightarrow> text_file \<Rightarrow> text_file" where
  "set_width new_width f = f\<lparr>width := new_width\<rparr>"

text \<open>
  The constructors. \<^verbatim>\<open>mode.upper()\<close> maps the ASCII letters a to z to A to Z. A file
  opened for input or random access, with no first character given, reads one character
  ahead.
\<close>

definition upper :: "string \<Rightarrow> string" where
  "upper s = map (\<lambda>c. if 97 \<le> (of_char c :: nat) \<and> (of_char c :: nat) \<le> 122
                        then char_of ((of_char c :: nat) - 32) else c) s"

definition TextFileBase_init :: "string \<Rightarrow> string \<Rightarrow> string \<Rightarrow> string \<Rightarrow> text_file" where
  "TextFileBase_init fh ftype md first_char =
     (if py_in (upper md) ''IR'' \<and> first_char = ''''
      then \<lparr>fhandle = drop 1 fh, written = '''', filetype = ftype, mode = upper md,
             width = 255, col = 1, next_char = take 1 fh, cur_char = '''', last_char = '''',
             soft_sep = '' ''\<rparr>
      else \<lparr>fhandle = fh, written = '''', filetype = ftype, mode = upper md,
             width = 255, col = 1, next_char = first_char, cur_char = '''', last_char = '''',
             soft_sep = '' ''\<rparr>)"

definition InputTextFile_init :: "string \<Rightarrow> text_file" where
  "InputTextFile_init line = (TextFileBase_init line ''D'' ''I'' '''')\<lparr>soft_sep := ''''\<rparr>"

section \<open>Errors\<close>

datatype error = DEVICE_UNAVAILABLE | BAD_FILE_MODE | DEVICE_IO_ERROR | INPUT_PAST_END

section \<open>INPUT from a buffered source\<close>

text \<open>
  \<^verbatim>\<open>values.STR\<close> is the type character of strings; the module \<^verbatim>\<open>values\<close> is not among the
  source files, and the tokenizer only compares the type character with it.
\<close>

definition values_STR :: string where
  "values_STR = ''$''"

definition whitespace_input :: string where
  "whitespace_input = '' '' @ NUL @ LF"

text \<open>
  \<^verbatim>\<open>_skip_whitespace\<close>. When the lookahead holds the soft end-of-file marker and the
  marker counts as whitespace, \<^verbatim>\<open>read_one\<close> consumes nothing and the loop does not
  end: the result is then \<open>None\<close>.
\<close>

partial_function (option) skip_whitespace_loop ::
    "string \<Rightarrow> string \<Rightarrow> text_file \<Rightarrow> (string \<times> text_file) option" where
  "skip_whitespace_loop whitespace c f =
     (if next_char f \<noteq> '''' \<and> py_in (next_char f) whitespace
      then (case read_one f of (c1, f1) \<Rightarrow>
              if c1 = LF \<and> next_char f1 = CR
              then skip_whitespace_loop whitespace c1 (snd (read_one f1))
              else skip_whitespace_loop whitespace c1 f1)
      else Some (c, f))"

definition skip_whitespace :: "string \<Rightarrow> text_file \<Rightarrow> (string \<times> text_file) option" where
  "skip_whitespace whitespace f = skip_whitespace_loop whitespace '''' f"

text \<open>
  \<^verbatim>\<open>input_entry\<close>, up to the test for the end of the input: the last whitespace
  character skipped, the first character read, whether the field is quoted, and the
  character the scan starts with.
\<close>

definition input_entry_head ::
    "string \<Rightarrow> text_file \<Rightarrow> (string \<times> string \<times> bool \<times> string \<times> text_file) option" where
  "input_entry_head typechar f =
     (case skip_whitespace whitespace_input f of
        None \<Rightarrow> None
      | Some (lastw, f1) \<Rightarrow>
          (case read_one f1 of (c, f2) \<Rightarrow>
             if c = DQUOTE \<and> typechar = values_STR \<and> lastw \<noteq> LF \<and> lastw \<noteq> NUL
             then (case read_one f2 of (c1, f3) \<Rightarrow> Some (lastw, c, True, c1, f3))
             else Some (lastw, c, False, c, f2)))"

lemma read_one_size:
  assumes "read_one f = (c, f1)"
  shows "length (next_char f1) + length (fhandle f1) \<le> length (next_char f) + length (fhandle f)"
proof (cases "c = ''''")
  case True
  with assms show ?thesis by (auto simp: read_one_eq split: if_splits)
next
  case False
  with assms show ?thesis using read_one_consumes [of f c f1] by simp
qed

lemma read_one_step:
  assumes "read_one f = (c, f1)"
  shows "2 * (length (next_char f1) + length (fhandle f1)) + (if c = '''' then 0 else 1)
           < 2 * (length (next_char f) + length (fhandle f)) + 1"
proof (cases "c = ''''")
  case True
  with assms show ?thesis by (auto simp: read_one_eq split: if_splits)
next
  case False
  with assms show ?thesis using read_one_consumes [of f c f1] by simp
qed

text \<open>The scanning loop of \<^verbatim>\<open>input_entry\<close>; it returns the word, the last character read
  and the file.\<close>

function input_entry_loop ::
    "string \<Rightarrow> bool \<Rightarrow> string \<Rightarrow> string \<Rightarrow> string \<Rightarrow> text_file \<Rightarrow> string \<times> string \<times> text_file" where
  "input_entry_loop typechar quoted c word blanks f =
     (if c \<noteq> '''' \<and> \<not> ((typechar \<noteq> values_STR \<and> py_in c (soft_sep f)) \<or> (py_in c ('','' @ CR) \<and> \<not> quoted))
      then
        if c = DQUOTE \<and> quoted then (word, c, f)
        else if c = LF \<and> \<not> quoted then
          (case read_one f of (c1, f1) \<Rightarrow>
             if c1 = CR
             then (case read_one f1 of (c2, f2) \<Rightarrow> input_entry_loop typechar quoted c2 word blanks f2)
             else input_entry_loop typechar quoted c1 word blanks f1)
        else
          (case (if c = NUL then (word, blanks)
                 else if py_in c whitespace_input \<and> \<not> quoted
                   then (if typechar = values_STR then (word, blanks @ c) else (word, blanks))
                   else (word @ blanks @ c, '''')) of
             (word1, blanks1) \<Rightarrow>
               if length word1 + length blanks1 \<ge> 255 then (word1, c, f)
               else (case (if \<not> quoted then read_one f else input_chars 1 f) of
                       (c1, f1) \<Rightarrow> input_entry_loop typechar quoted c1 word1 blanks1 f1))
      else (word, c, f))"
  by pat_completeness auto
termination
proof (relation "measure (\<lambda>(typechar, quoted, c, word, blanks, f).
          2 * (length (next_char f) + length (fhandle f)) + (if c = '''' then 0 else 1))",
       goal_cases)
  case 1
  show ?case by simp
next
  case (2 typechar quoted c word blanks f x y xa ya)
  from 2 have "c \<noteq> ''''" and "read_one f = (CR, y)" and "read_one y = (xa, ya)"
    by simp_all
  then show ?case
    using read_one_consumes [of f CR y] read_one_step [of y xa ya] by simp
next
  case (3 typechar quoted c word blanks f x y)
  from 3 have "c \<noteq> ''''" and "read_one f = (x, y)"
    by simp_all
  then show ?case
    using read_one_step [of f x y] by simp
next
  case (4 typechar quoted c word blanks f x y xa ya)
  from 4 have "c \<noteq> ''''" and "read_one f = (xa, ya)"
    by (simp_all add: read_one_def split: if_splits)
  then show ?case
    using read_one_step [of f xa ya] by simp
qed

declare input_entry_loop.simps [simp del]

text \<open>
  The end of \<^verbatim>\<open>input_entry\<close>, after the scanning loop: when the scan stopped at a
  whitespace character or at the closing quote, the spaces that follow are skipped, and
  a comma or CR after them is read as the separator.
\<close>

definition input_entry_tail ::
    "bool \<Rightarrow> string \<times> string \<times> text_file \<Rightarrow> (error + (string \<times> string \<times> text_file)) option" where
  "input_entry_tail quoted r =
     (case r of
        (word, c2, f4) \<Rightarrow>
          if (c2 \<noteq> '''' \<and> py_in c2 whitespace_input) \<or> (quoted \<and> c2 = DQUOTE)
          then (case skip_whitespace '' '' f4 of
                  None \<Rightarrow> None
                | Some (sp, f5) \<Rightarrow>
                    if py_in (next_char f5) ('','' @ CR)
                    then (case read_one f5 of (c3, f6) \<Rightarrow> Some (Inr (word, c3, f6)))
                    else Some (Inr (word, c2, f5)))
          else Some (Inr (word, c2, f4)))"

text \<open>\<^verbatim>\<open>input_entry\<close>: the error, or the word, the separator and the file after the read.\<close>

definition input_entry ::
    "string \<Rightarrow> bool \<Rightarrow> text_file \<Rightarrow> (error + (string \<times> string \<times> text_file)) option" where
  "input_entry typechar allow_past_end f =
     (case input_entry_head typechar f of
        None \<Rightarrow> None
      | Some (lastw, c0, quoted, c, f3) \<Rightarrow>
          if c = '''' \<and> \<not> allow_past_end \<and> lastw \<noteq> LF \<and> lastw \<noteq> NUL
          then Some (Inl INPUT_PAST_END)
          else input_entry_tail quoted (input_entry_loop typechar quoted c '''' '''' f3))"

section \<open>The keyboard file\<close>

text \<open>
  The attributes \<^verbatim>\<open>KYBDFile\<close> adds. \<^verbatim>\<open>_keyboard\<close> and \<^verbatim>\<open>_display\<close> refer to the
  one keyboard and the one display, which are part of the state of the session below;
  \<^verbatim>\<open>reclen\<close> exists on clones only.
\<close>

record kybd_file = text_file +
  input_last :: string
  kybd_is_master :: bool
  kybd_reclen :: "int option"

text \<open>
  The e-ASCII codes of the keys that \<^verbatim>\<open>_input_replace\<close> translates. Their values are in
  \<^verbatim>\<open>base/eascii.py\<close>, which is not among the source files, so they are parameters.
\<close>

record eascii =
  HOME :: string
  UP :: string
  PAGEUP :: string
  LEFT :: string
  RIGHT :: string
  END :: string
  DOWN :: string
  PAGEDOWN :: string
  DELETE :: string
  INSERT :: string
  FKEYS :: "string list"

text \<open>
  \<^verbatim>\<open>KYBDFile._input_replace\<close>: a Python dictionary display, where a later entry replaces
  an earlier one with the same key. \<open>FKEYS\<close> are the codes of F1 to F10.
\<close>

definition input_replace_items :: "eascii \<Rightarrow> (string \<times> string) list" where
  "input_replace_items ea =
     [(HOME ea, [CHR 0xFF, CHR 0x0B]), (UP ea, [CHR 0xFF, CHR 0x1E]), (PAGEUP ea, [CHR 0xFE]),
      (LEFT ea, [CHR 0xFF, CHR 0x1D]), (RIGHT ea, [CHR 0xFF, CHR 0x1C]),
      (END ea, [CHR 0xFF, CHR 0x0E]),
      (DOWN ea, [CHR 0xFF, CHR 0x1F]), (PAGEDOWN ea, [CHR 0xFE]),
      (DELETE ea, [CHR 0xFF, CHR 0x7F]), (INSERT ea, [CHR 0xFF, CHR 0x12])]
     @ map (\<lambda>k. (k, '''')) (FKEYS ea)"

definition input_replace :: "eascii \<Rightarrow> string \<Rightarrow> string option" where
  "input_replace ea = map_of (rev (input_replace_items ea))"

text \<open>
  Modelled from the spec: \<^verbatim>\<open>read_bytes_kybd_file(n)\<close> of the keyboard, which is not among
  the source files. The specification has it return up to \<open>n\<close> already-decoded input
  codes, each of one byte or a multi-byte extended code, from a read that blocks. The
  keyboard is the list of the codes still to come; the read takes up to \<open>n\<close> of them,
  and when none is left it never returns, which is \<open>None\<close>.
\<close>

definition read_bytes_kybd_file :: "nat \<Rightarrow> string list \<Rightarrow> (string list \<times> string list) option" where
  "read_bytes_kybd_file n kb = (if kb = [] then None else Some (take n kb, drop n kb))"

text \<open>\<^verbatim>\<open>self._input_replace.get(c, c)\<close>\<close>

definition translated :: "eascii \<Rightarrow> string \<Rightarrow> string" where
  "translated ea k = (case input_replace ea k of Some r \<Rightarrow> r | None \<Rightarrow> k)"

text \<open>
  \<^verbatim>\<open>KYBDFile.read_one\<close>: the loop reads one code at a time until the characters
  collected are at least one.
\<close>

function KYBDFile_read_one_loop ::
    "eascii \<Rightarrow> string \<Rightarrow> string list \<Rightarrow> (string \<times> string list) option" where
  "KYBDFile_read_one_loop ea chars kb =
     (if length chars < 1
      then (case read_bytes_kybd_file 1 kb of
              None \<Rightarrow> None
            | Some (cs, kb1) \<Rightarrow>
                KYBDFile_read_one_loop ea (chars @ concat (map (translated ea) cs)) kb1)
      else Some (chars, kb))"
  by pat_completeness auto
termination
  by (relation "measure (\<lambda>(ea, chars, kb). length kb)")
     (auto simp: read_bytes_kybd_file_def split: if_splits)

declare KYBDFile_read_one_loop.simps [simp del]

definition KYBDFile_read_one :: "eascii \<Rightarrow> string list \<Rightarrow> (string \<times> string list) option" where
  "KYBDFile_read_one ea kb = KYBDFile_read_one_loop ea '''' kb"

lemma KYBDFile_read_one_Nil [simp]: "KYBDFile_read_one ea [] = None"
  by (simp add: KYBDFile_read_one_def KYBDFile_read_one_loop.simps [of ea "[]"]
      read_bytes_kybd_file_def)

lemma KYBDFile_read_one_Cons [simp]:
  "KYBDFile_read_one ea (k # ks) =
     (if length (translated ea k) < 1 then KYBDFile_read_one ea ks
      else Some (translated ea k, ks))"
proof (cases "length (translated ea k) < 1")
  case True
  then show ?thesis
    by (simp add: KYBDFile_read_one_def KYBDFile_read_one_loop.simps [of ea "[]" "k # ks"]
        read_bytes_kybd_file_def)
next
  case False
  then have "KYBDFile_read_one_loop ea (translated ea k) ks = Some (translated ea k, ks)"
    by (subst KYBDFile_read_one_loop.simps) simp
  with False show ?thesis
    by (simp add: KYBDFile_read_one_def KYBDFile_read_one_loop.simps [of ea "[]" "k # ks"]
        read_bytes_kybd_file_def)
qed

lemma KYBDFile_read_one_shorter:
  "KYBDFile_read_one ea kb = Some (c, kb1) \<Longrightarrow> length kb1 < length kb"
  by (induction kb) (auto split: if_splits)

section \<open>INPUT from a live source\<close>

text \<open>
  The loop of \<^verbatim>\<open>input_entry_realtime\<close>, on the keyboard and the push-back slot
  \<^verbatim>\<open>_input_last\<close>; it returns the word, the last character read, the keyboard and the slot.
\<close>

function input_entry_realtime_loop ::
    "eascii \<Rightarrow> string \<Rightarrow> bool \<Rightarrow> string \<Rightarrow> string \<Rightarrow> string \<Rightarrow> bool \<Rightarrow> string list \<Rightarrow> string
      \<Rightarrow> (string \<times> string \<times> string list \<times> string) option" where
  "input_entry_realtime_loop ea typechar quoted c word blanks parsing_trail kb il =
     (if c \<noteq> '''' \<and> \<not> (py_in c ('','' @ CR) \<and> \<not> quoted)
      then
        if \<not> (c = DQUOTE \<and> quoted) \<and> c = LF \<and> \<not> quoted then
          (case KYBDFile_read_one ea kb of
             None \<Rightarrow> None
           | Some (c1, kb1) \<Rightarrow>
               if c1 = CR
               then (case KYBDFile_read_one ea kb1 of
                       None \<Rightarrow> None
                     | Some (c2, kb2) \<Rightarrow>
                         input_entry_realtime_loop ea typechar quoted c2 word blanks
                           parsing_trail kb2 il)
               else input_entry_realtime_loop ea typechar quoted c1 word blanks
                      parsing_trail kb1 il)
        else
          (case (if c = DQUOTE \<and> quoted then (word, blanks, True)
                 else if c = NUL then (word, blanks, parsing_trail)
                 else if py_in c whitespace_input \<and> \<not> quoted
                   then (if typechar = values_STR then (word, blanks @ c, parsing_trail)
                         else (word, blanks, parsing_trail))
                   else (word @ blanks @ c, '''', parsing_trail)) of
             (word1, blanks1, parsing_trail1) \<Rightarrow>
               if length word1 + length blanks1 \<ge> 255 then Some (word1, c, kb, il)
               else (case KYBDFile_read_one ea kb of
                       None \<Rightarrow> None
                     | Some (c1, kb1) \<Rightarrow>
                         if parsing_trail1 \<and> \<not> py_in c1 whitespace_input
                         then Some (word1, c1, kb1, (if c1 \<noteq> '','' \<and> c1 \<noteq> CR then c1 else il))
                         else input_entry_realtime_loop ea typechar quoted c1 word1 blanks1
                                (parsing_trail1 \<or> (typechar \<noteq> values_STR \<and> c1 = '' ''))
                                kb1 il))
      else Some (word, c, kb, il))"
  by pat_completeness auto
termination
proof (relation "measure (\<lambda>(ea, typechar, quoted, c, word, blanks, parsing_trail, kb, il).
          length kb)", goal_cases)
  case 1
  show ?case by simp
next
  case (2 ea typechar quoted c word blanks parsing_trail kb il x2 x y x2a xa ya)
  then show ?case
    using KYBDFile_read_one_shorter [of ea kb x y] KYBDFile_read_one_shorter [of ea y xa ya]
    by simp
next
  case (3 ea typechar quoted c word blanks parsing_trail kb il x2 x y)
  then show ?case
    using KYBDFile_read_one_shorter [of ea kb x y] by simp
next
  case (4 ea typechar quoted c word blanks parsing_trail kb il x y xa ya x2 xb yb)
  then show ?case
    using KYBDFile_read_one_shorter [of ea kb xb yb] by simp
qed

declare input_entry_realtime_loop.simps [simp del]

text \<open>
  \<^verbatim>\<open>input_entry_realtime\<close>, as bound to \<^verbatim>\<open>KYBDFile.input_entry\<close>, up to the test for
  the end of the input: whether the field is quoted, the character the scan starts with,
  the keyboard and the push-back slot.
\<close>

definition input_entry_realtime_head ::
    "eascii \<Rightarrow> string \<Rightarrow> string list \<Rightarrow> string \<Rightarrow> (bool \<times> string \<times> string list \<times> string) option" where
  "input_entry_realtime_head ea typechar kb il =
     (case (if il \<noteq> '''' then Some (il, kb, '''')
            else (case KYBDFile_read_one ea kb of
                    None \<Rightarrow> None
                  | Some (c, kb1) \<Rightarrow> Some (c, kb1, il))) of
        None \<Rightarrow> None
      | Some (c0, kb1, il1) \<Rightarrow>
          if c0 = DQUOTE \<and> typechar = values_STR
          then (case KYBDFile_read_one ea kb1 of
                  None \<Rightarrow> None
                | Some (c, kb2) \<Rightarrow> Some (True, c, kb2, il1))
          else Some (False, c0, kb1, il1))"

text \<open>
  \<^verbatim>\<open>input_entry_realtime\<close>: the error, or the word, the separator, the keyboard and the
  file after the read.
\<close>

definition input_entry_realtime ::
    "eascii \<Rightarrow> string \<Rightarrow> bool \<Rightarrow> string list \<Rightarrow> kybd_file
      \<Rightarrow> (error + (string \<times> string \<times> string list \<times> kybd_file)) option" where
  "input_entry_realtime ea typechar allow_past_end kb f =
     (case input_entry_realtime_head ea typechar kb (input_last f) of
        None \<Rightarrow> None
      | Some (quoted, c, kb2, il) \<Rightarrow>
          if c = '''' \<and> \<not> allow_past_end then Some (Inl INPUT_PAST_END)
          else (case input_entry_realtime_loop ea typechar quoted c '''' '''' False kb2 il of
                  None \<Rightarrow> None
                | Some (word, c2, kb3, il1) \<Rightarrow>
                    Some (Inr (word, c2, kb3, f\<lparr>input_last := il1\<rparr>))))"

section \<open>The screen file, the devices and their shared state\<close>

text \<open>
  What the files read of the display: the width and height of its mode, the cursor and
  the overflow flag. The display itself is not among the source files;
  \<^verbatim>\<open>display.mode\<close> and \<^verbatim>\<open>display.text_screen.mode\<close> are taken to be the one mode.
\<close>

record display_state =
  mode_width :: int
  mode_height :: int
  current_col :: int
  current_row :: int
  overflow :: bool

text \<open>The attributes \<^verbatim>\<open>SCRNFile\<close> adds to \<^verbatim>\<open>RawFile\<close>: \<^verbatim>\<open>_width\<close>, \<^verbatim>\<open>_col\<close>,
  \<^verbatim>\<open>_is_master\<close> and, on clones, \<^verbatim>\<open>reclen\<close>.\<close>

record scrn_file = raw_file +
  scrn_width :: int
  scrn_col :: int
  scrn_is_master :: bool
  scrn_reclen :: "int option"

datatype device_file_obj = KYBDFile kybd_file | SCRNFile scrn_file

text \<open>
  The objects that share state: the file objects, each at its index in \<open>files\<close> (a
  reference to a file is its index, and a new object goes to the end), the display and
  the keyboard.
\<close>

record session =
  files :: "device_file_obj list"
  display :: display_state
  keyboard :: "string list"

text \<open>\<^verbatim>\<open>nullstream()\<close> opens the null device, which holds no bytes.\<close>

definition nullstream :: string where
  "nullstream = ''''"

definition KYBDFile_init :: kybd_file where
  "KYBDFile_init =
     text_file.extend (TextFileBase_init nullstream ''D'' ''A'' '''')
       (kybd_file.fields '''' True None)"

definition KYBDFile_open_clone :: "string \<Rightarrow> string \<Rightarrow> int \<Rightarrow> kybd_file" where
  "KYBDFile_open_clone ftype md rl =
     KYBDFile_init\<lparr>mode := md, kybd_reclen := Some rl, filetype := ftype,
                    kybd_is_master := False\<rparr>"

definition SCRNFile_init :: "display_state \<Rightarrow> scrn_file" where
  "SCRNFile_init d =
     \<lparr>fhandle = nullstream, written = '''', filetype = ''D'', mode = upper ''O'',
      scrn_width = mode_width d, scrn_col = current_col d, scrn_is_master = True,
      scrn_reclen = None\<rparr>"

definition SCRNFile_open_clone :: "display_state \<Rightarrow> string \<Rightarrow> string \<Rightarrow> int \<Rightarrow> scrn_file" where
  "SCRNFile_open_clone d ftype md rl =
     (SCRNFile_init d)\<lparr>mode := md, scrn_reclen := Some rl, filetype := ftype,
                        scrn_is_master := False\<rparr>"

text \<open>The method \<^verbatim>\<open>open_clone\<close> of the master file, by the class of the file.\<close>

fun open_clone :: "device_file_obj \<Rightarrow> display_state \<Rightarrow> string \<Rightarrow> string \<Rightarrow> int \<Rightarrow> device_file_obj" where
  "open_clone (KYBDFile f) d ftype md rl = KYBDFile (KYBDFile_open_clone ftype md rl)"
| "open_clone (SCRNFile f) d ftype md rl = SCRNFile (SCRNFile_open_clone d ftype md rl)"

fun is_master :: "device_file_obj \<Rightarrow> bool" where
  "is_master (KYBDFile f) = kybd_is_master f"
| "is_master (SCRNFile f) = scrn_is_master f"

text \<open>
  \<^verbatim>\<open>Device\<close>: the reference to the master file, if there is one, and the allowed modes.
\<close>

record device =
  device_file :: "nat option"
  allowed_modes :: string

definition Device_init :: device where
  "Device_init = \<lparr>device_file = None, allowed_modes = ''''\<rparr>"

text \<open>
  \<^verbatim>\<open>Device.open\<close>. Of its arguments only \<^verbatim>\<open>filetype\<close>, \<^verbatim>\<open>mode\<close> and \<^verbatim>\<open>reclen\<close> are
  used. It returns the error raised, or the reference to the new file with the device and
  the session after the call.
\<close>

definition Device_open ::
    "device \<Rightarrow> string \<Rightarrow> string \<Rightarrow> int \<Rightarrow> session \<Rightarrow> error + (nat \<times> device \<times> session)" where
  "Device_open dev ftype md rl w =
     (case device_file dev of
        None \<Rightarrow> Inl DEVICE_UNAVAILABLE
      | Some m \<Rightarrow>
          if \<not> py_in md (allowed_modes dev) then Inl BAD_FILE_MODE
          else Inr (length (files w), dev,
                    w\<lparr>files := files w @ [open_clone (files w ! m) (display w) ftype md rl]\<rparr>))"

text \<open>
  \<^verbatim>\<open>SCRNDevice\<close> and \<^verbatim>\<open>KYBDDevice\<close> at the start of a session: each constructs its
  master file.
\<close>

definition session_init :: "display_state \<Rightarrow> string list \<Rightarrow> session" where
  "session_init d kb =
     \<lparr>files = [SCRNFile (SCRNFile_init d), KYBDFile KYBDFile_init], display = d,
      keyboard = kb\<rparr>"

definition SCRNDevice_init :: device where
  "SCRNDevice_init = \<lparr>device_file = Some 0, allowed_modes = ''OR''\<rparr>"

definition KYBDDevice_init :: device where
  "KYBDDevice_init = \<lparr>device_file = Some 1, allowed_modes = ''IR''\<rparr>"

text \<open>
  \<^verbatim>\<open>set_width\<close> of the file at reference \<open>a\<close>. \<^verbatim>\<open>display.set_width\<close> is not among the
  source files: it is the parameter \<open>display_set_width\<close>, a function on the state of
  the display.
\<close>

definition KYBDFile_set_width ::
    "(int \<Rightarrow> display_state \<Rightarrow> display_state) \<Rightarrow> int \<Rightarrow> kybd_file \<Rightarrow> session \<Rightarrow> session" where
  "KYBDFile_set_width display_set_width new_width f w =
     (if kybd_is_master f then w\<lparr>display := display_set_width new_width (display w)\<rparr>
      else w)"

definition SCRNFile_set_width ::
    "(int \<Rightarrow> display_state \<Rightarrow> display_state) \<Rightarrow> int \<Rightarrow> nat \<Rightarrow> scrn_file \<Rightarrow> session \<Rightarrow> session" where
  "SCRNFile_set_width display_set_width new_width a f w =
     (if scrn_is_master f then w\<lparr>display := display_set_width new_width (display w)\<rparr>
      else w\<lparr>files := (files w)[a := SCRNFile (f\<lparr>scrn_width := new_width\<rparr>)]\<rparr>)"

definition file_set_width ::
    "(int \<Rightarrow> display_state \<Rightarrow> display_state) \<Rightarrow> int \<Rightarrow> nat \<Rightarrow> session \<Rightarrow> session" where
  "file_set_width display_set_width new_width a w =
     (case files w ! a of
        KYBDFile f \<Rightarrow> KYBDFile_set_width display_set_width new_width f w
      | SCRNFile f \<Rightarrow> SCRNFile_set_width display_set_width new_width a f w)"

text \<open>
  The attribute \<^verbatim>\<open>width\<close> of the file at reference \<open>a\<close>: a field of a keyboard file, a
  property of a screen file.
\<close>

definition file_width :: "session \<Rightarrow> nat \<Rightarrow> int" where
  "file_width w a =
     (case files w ! a of
        KYBDFile f \<Rightarrow> width f
      | SCRNFile f \<Rightarrow> if scrn_is_master f then mode_width (display w) else scrn_width f)"

text \<open>
  Modelled from the spec: \<^verbatim>\<open>display.set_width\<close> (the display is not among the source
  files) alters the live width of the display. It stands for the parameter
  \<open>display_set_width\<close> in the examples.
\<close>

definition set_mode_width :: "int \<Rightarrow> display_state \<Rightarrow> display_state" where
  "set_mode_width w d = d\<lparr>mode_width := w\<rparr>"

text \<open>The state of the examples: a display of 80 columns and 25 rows, and a session
  with the two master files and one clone of each.\<close>

definition display80 :: display_state where
  "display80 =
     \<lparr>mode_width = 80, mode_height = 25, current_col = 1, current_row = 1, overflow = False\<rparr>"

definition session_with_clones :: session where
  "session_with_clones =
     \<lparr>files = [SCRNFile (SCRNFile_init display80), KYBDFile KYBDFile_init,
               SCRNFile (SCRNFile_open_clone display80 ''D'' ''O'' 128),
               KYBDFile (KYBDFile_open_clone ''D'' ''I'' 128)],
      display = display80, keyboard = []\<rparr>"

section \<open>Notions of the specification\<close>

text \<open>
  The characters a file can still read: none when the lookahead is empty, and otherwise
  the lookahead and the rest of the stream up to the first soft end-of-file marker.
\<close>

definition pending :: "text_file \<Rightarrow> string" where
  "pending f =
     (if next_char f = '''' then ''''
      else takeWhile (\<lambda>c. [c] \<noteq> SUB) (next_char f @ fhandle f))"

text \<open>
  What the specification says of \<^verbatim>\<open>read_line\<close>, on the characters still to read and with
  the cap as a parameter: the line, the terminator (\<open>None\<close> is Python's \<^verbatim>\<open>None\<close>) and the
  characters left. The line is that of the first \<open>n\<close> characters up to the first CR.
  When it has \<open>n\<close> characters the cap was hit: the terminator is CR if the next
  character is CR and \<open>None\<close> otherwise, and nothing more is consumed. When it is shorter
  and characters remain, it ended at a CR, which is consumed. Otherwise the input ended.
\<close>

definition spec_read_line_cap:: "nat \<Rightarrow> string \<Rightarrow> string \<times> string option \<times> string" where
  "spec_read_line_cap n inp =
     (if length (takeWhile (\<lambda>c. [c] \<noteq> CR) (take n inp)) = n
      then (take n inp, (if take 1 (drop n inp) = CR then Some CR else None), drop n inp)
      else if length (takeWhile (\<lambda>c. [c] \<noteq> CR) (take n inp)) < length inp
        then (takeWhile (\<lambda>c. [c] \<noteq> CR) (take n inp), Some CR,
              drop (length (takeWhile (\<lambda>c. [c] \<noteq> CR) (take n inp)) + 1) inp)
        else (takeWhile (\<lambda>c. [c] \<noteq> CR) (take n inp), Some '''', ''''))"

definition spec_read_line :: "string \<Rightarrow> string \<times> string option \<times> string" where
  "spec_read_line inp = spec_read_line_cap 255 inp"

text \<open>
  The leading run of whitespace of the specification, on the characters still to read:
  the characters of \<open>ws\<close> are skipped, a CR right after a skipped LF is skipped with it,
  and the result is the last whitespace character skipped (the LF, when its CR went with
  it; \<open>lastw\<close> when nothing was skipped) and the characters after the run.
\<close>

function leading_run :: "string \<Rightarrow> string \<Rightarrow> string \<Rightarrow> string \<times> string" where
  "leading_run ws lastw [] = (lastw, [])"
| "leading_run ws lastw (c # cs) =
     (if c \<in> set ws
      then (if [c] = LF \<and> take 1 cs = CR then leading_run ws [c] (drop 1 cs)
            else leading_run ws [c] cs)
      else (lastw, c # cs))"
  by pat_completeness auto
termination
  by (relation "measure (\<lambda>(ws, lastw, s). length s)") auto

text \<open>
  For \<^verbatim>\<open>input_entry\<close>: the last character skipped in the leading run of
  whitespace-for-input (empty when there is none), the characters after that run, and
  the rule of the specification for quoting.
\<close>

definition last_skipped :: "string \<Rightarrow> string" where
  "last_skipped inp = fst (leading_run whitespace_input '''' inp)"

definition after_whitespace :: "string \<Rightarrow> string" where
  "after_whitespace inp = snd (leading_run whitespace_input '''' inp)"

definition quoting_applies :: "string \<Rightarrow> string \<Rightarrow> bool" where
  "quoting_applies typechar inp =
     (typechar = values_STR \<and> take 1 (after_whitespace inp) = DQUOTE
      \<and> last_skipped inp \<noteq> LF \<and> last_skipped inp \<noteq> NUL)"

text \<open>
  The test and the accumulation step of the scanning loop of \<^verbatim>\<open>input_entry\<close>, named so
  that the proofs can unfold the loop one step at a time.
\<close>

definition scan_goes_on :: "string \<Rightarrow> bool \<Rightarrow> string \<Rightarrow> string \<Rightarrow> bool" where
  "scan_goes_on typechar quoted c sep =
     (c \<noteq> '''' \<and> \<not> ((typechar \<noteq> values_STR \<and> py_in c sep) \<or> (py_in c ('','' @ CR) \<and> \<not> quoted)))"

definition scan_accumulate :: "string \<Rightarrow> bool \<Rightarrow> string \<Rightarrow> string \<Rightarrow> string \<Rightarrow> string \<times> string" where
  "scan_accumulate typechar quoted c word blanks =
     (if c = NUL then (word, blanks)
      else if py_in c whitespace_input \<and> \<not> quoted
        then (if typechar = values_STR then (word, blanks @ c) else (word, blanks))
        else (word @ blanks @ c, ''''))"

text \<open>
  The key codes of the examples: on the IBM PC the code of an extended key is NUL
  followed by the scan code of the key (\<^verbatim>\<open>base/eascii.py\<close> is not among the source
  files).
\<close>

definition ibm_eascii :: eascii where
  "ibm_eascii =
     \<lparr>HOME = [CHR 0x00, CHR 0x47], UP = [CHR 0x00, CHR 0x48], PAGEUP = [CHR 0x00, CHR 0x49],
      LEFT = [CHR 0x00, CHR 0x4B], RIGHT = [CHR 0x00, CHR 0x4D], END = [CHR 0x00, CHR 0x4F],
      DOWN = [CHR 0x00, CHR 0x50], PAGEDOWN = [CHR 0x00, CHR 0x51],
      DELETE = [CHR 0x00, CHR 0x53], INSERT = [CHR 0x00, CHR 0x52],
      FKEYS = [[CHR 0x00, CHR 0x3B], [CHR 0x00, CHR 0x3C], [CHR 0x00, CHR 0x3D],
               [CHR 0x00, CHR 0x3E], [CHR 0x00, CHR 0x3F], [CHR 0x00, CHR 0x40],
               [CHR 0x00, CHR 0x41], [CHR 0x00, CHR 0x42], [CHR 0x00, CHR 0x43],
               [CHR 0x00, CHR 0x44]]\<rparr>"

text \<open>
  A string is clean of NUL when it is the one character NUL, which the tokenizers drop,
  or holds no NUL at all.
\<close>

definition nul_clean :: "string \<Rightarrow> bool" where
  "nul_clean c = (c = NUL \<or> CHR 0x00 \<notin> set c)"

text \<open>
  The test and the accumulation step of the loop of \<^verbatim>\<open>input_entry_realtime\<close>, named as
  those of the buffered loop are.
\<close>

definition realtime_goes_on :: "bool \<Rightarrow> string \<Rightarrow> bool" where
  "realtime_goes_on quoted c = (c \<noteq> '''' \<and> \<not> (py_in c ('','' @ CR) \<and> \<not> quoted))"

definition realtime_accumulate ::
    "string \<Rightarrow> bool \<Rightarrow> string \<Rightarrow> string \<Rightarrow> string \<Rightarrow> bool \<Rightarrow> string \<times> string \<times> bool" where
  "realtime_accumulate typechar quoted c word blanks parsing_trail =
     (if c = DQUOTE \<and> quoted then (word, blanks, True)
      else if c = NUL then (word, blanks, parsing_trail)
      else if py_in c whitespace_input \<and> \<not> quoted
        then (if typechar = values_STR then (word, blanks @ c, parsing_trail)
              else (word, blanks, parsing_trail))
        else (word @ blanks @ c, '''', parsing_trail))"

text \<open>
  The printable length of a string, as the specification counts it (the characters of
  code 32 and more), and a string free of CR and LF.
\<close>

definition printable_length :: "string \<Rightarrow> int" where
  "printable_length s = int (length (filter (\<lambda>c. (32::nat) \<le> of_char c) s))"

definition newline_free :: "string \<Rightarrow> bool" where
  "newline_free s = (\<forall>c\<in>set s. [c] \<noteq> CR \<and> [c] \<noteq> LF)"

section \<open>Properties of reading\<close>

lemma shift_lookahead_wf: "length (next_char (shift_lookahead f)) \<le> 1"
  by (simp add: shift_lookahead_def)

lemma pending_shift:
  "pending (shift_lookahead f) = takeWhile (\<lambda>c. [c] \<noteq> SUB) (fhandle f)"
  by (cases "fhandle f") (simp_all add: pending_def shift_lookahead_def)

lemma read_one_pending:
  assumes "length (next_char f) \<le> 1"
  shows "fst (read_one f) = take 1 (pending f)"
    and "pending (snd (read_one f)) = drop 1 (pending f)"
    and "length (next_char (snd (read_one f))) \<le> 1"
proof -
  consider "next_char f = ''''" | c where "next_char f = [c]"
    using assms by (cases "next_char f") auto
  then have "fst (read_one f) = take 1 (pending f)
      \<and> pending (snd (read_one f)) = drop 1 (pending f)
      \<and> length (next_char (snd (read_one f))) \<le> 1"
  proof cases
    case 1
    then show ?thesis by (simp add: read_one_eq pending_def)
  next
    case 2
    then show ?thesis
      using shift_lookahead_wf [of f]
      by (simp add: read_one_eq pending_shift) (simp add: pending_def)
  qed
  then show "fst (read_one f) = take 1 (pending f)"
    and "pending (snd (read_one f)) = drop 1 (pending f)"
    and "length (next_char (snd (read_one f))) \<le> 1" by simp_all
qed

lemma next_char_pending:
  assumes "length (next_char f) \<le> 1"
  shows "take 1 (pending f) = (if next_char f = SUB then '''' else next_char f)"
proof -
  consider "next_char f = ''''" | c where "next_char f = [c]"
    using assms by (cases "next_char f") auto
  then show ?thesis
    by cases (simp_all add: pending_def)
qed

lemma spec_read_line_cap_Nil:
  "0 < n \<Longrightarrow> spec_read_line_cap n '''' = ('''', Some '''', '''')"
  by (simp add: spec_read_line_cap_def)

lemma spec_read_line_cap_CR:
  "0 < n \<Longrightarrow> spec_read_line_cap n (CHR 0x0D # rest) = ('''', Some CR, rest)"
  by (cases n) (simp_all add: spec_read_line_cap_def)

lemma spec_read_line_cap_last:
  "[c] \<noteq> CR \<Longrightarrow>
   spec_read_line_cap (Suc 0) (c # rest)
     = ([c], (if take (Suc 0) rest = CR then Some CR else None), rest)"
  by (simp add: spec_read_line_cap_def)

lemma spec_read_line_cap_step:
  "[c] \<noteq> CR \<Longrightarrow>
   spec_read_line_cap (Suc (Suc m)) (c # rest)
     = (case spec_read_line_cap (Suc m) rest of (L, T, r) \<Rightarrow> (c # L, T, r))"
  by (simp add: spec_read_line_cap_def)

lemma read_line_loop_spec:
  assumes "length (next_char f) \<le> 1" and "length out < 255"
  shows "\<exists>L T f'. read_line_loop out f = (concat out @ L, T, f')
           \<and> (L, T, pending f') = spec_read_line_cap (255 - length out) (pending f)
           \<and> length (next_char f') \<le> 1"
  using assms
proof (induction "pending f" arbitrary: f out)
  case Nil
  obtain c1 f1 where r: "read_one f = (c1, f1)" by (cases "read_one f") auto
  have "c1 = ''''" "pending f1 = ''''" "length (next_char f1) \<le> 1"
    using read_one_pending [OF Nil.prems(1)] r Nil.hyps [symmetric] by simp_all
  then show ?case
    using r Nil.prems(2) Nil.hyps [symmetric]
    by (subst read_line_loop.simps) (simp add: spec_read_line_cap_Nil)
next
  case (Cons c rest)
  obtain c1 f1 where r: "read_one f = (c1, f1)" by (cases "read_one f") auto
  have f1: "c1 = [c]" "pending f1 = rest" "length (next_char f1) \<le> 1"
    using read_one_pending [OF Cons.prems(1)] r Cons.hyps(2) [symmetric] by simp_all
  show ?case
  proof (cases "[c] = CR")
    case True
    then show ?thesis
      using r f1 Cons.prems(2) Cons.hyps(2) [symmetric]
      by (subst read_line_loop.simps) (simp add: spec_read_line_cap_CR)
  next
    case False
    show ?thesis
    proof (cases "length out = 254")
      case True
      have nc: "(next_char f1 = CR) = (take 1 rest = CR)"
        using next_char_pending [OF f1(3)] f1(2) by auto
      show ?thesis
        using r f1 False True nc Cons.hyps(2) [symmetric]
        by (subst read_line_loop.simps) (simp add: spec_read_line_cap_last)
    next
      case ne: False
      then have lt: "length (out @ [c1]) < 255" using Cons.prems(2) by simp
      obtain L T f' where ih: "read_line_loop (out @ [c1]) f1 = (concat (out @ [c1]) @ L, T, f')"
          "(L, T, pending f') = spec_read_line_cap (255 - length (out @ [c1])) (pending f1)"
          "length (next_char f') \<le> 1"
        using Cons.hyps(1) [OF f1(2) [symmetric] f1(3) lt] by blast
      define m where "m = 253 - length out"
      have m: "255 - length out = Suc (Suc m)" and m1: "255 - length (out @ [c1]) = Suc m"
        using ne Cons.prems(2) by (simp_all add: m_def)
      have e: "spec_read_line_cap (Suc m) rest = (L, T, pending f')"
        using ih(2) m1 f1(2) by simp
      have "read_line_loop out f = (concat out @ (c # L), T, f')"
        using r f1 False ne ih(1)
        by (subst read_line_loop.simps) simp
      moreover have "(c # L, T, pending f') = spec_read_line_cap (255 - length out) (pending f)"
        using False by (simp add: m Cons.hyps(2) [symmetric] spec_read_line_cap_step e)
      ultimately show ?thesis using ih(3) by blast
    qed
  qed
qed

lemma pending_init:
  "pending (TextFileBase_init s ''D'' ''I'' '''') = takeWhile (\<lambda>c. [c] \<noteq> SUB) s"
  by (cases s) (simp_all add: pending_def TextFileBase_init_def upper_def)

lemma next_char_init: "length (next_char (TextFileBase_init s ftype md '''')) \<le> 1"
  by (simp add: TextFileBase_init_def)

text \<open>
  C6, as amended. \<^verbatim>\<open>read_line\<close> on a file whose lookahead holds at most one character
  reads the characters that can still be read, which end at the physical end of the
  stream or at the soft end-of-file marker, whichever comes first. It returns the line up
  to the first CR, the end of that input or 255 characters, with the terminator CR at a
  CR, the empty string at the end of the input and, at 255 characters, CR when the next
  unread character is CR and \<open>None\<close> when it is not. The characters left to read are those
  after the line (and after the CR, when the line ended there). On \<^verbatim>\<open>HELLO\<close>, CR,
  \<^verbatim>\<open>WORLD\<close> it gives \<^verbatim>\<open>HELLO\<close> with CR and then \<^verbatim>\<open>WORLD\<close> with the empty string.
\<close>

theorem read_line_result:
  assumes "length (next_char f) \<le> 1"
  shows "(fst (read_line f), fst (snd (read_line f)), pending (snd (snd (read_line f))))
           = spec_read_line (pending f)
         \<and> length (next_char (snd (snd (read_line f)))) \<le> 1"
  using read_line_loop_spec [OF assms, of "[]"]
  by (auto simp: read_line_def spec_read_line_def)

theorem read_line_result_witness:
  "length (next_char (TextFileBase_init (''HELLO'' @ CR @ ''WORLD'') ''D'' ''I'' '''')) \<le> 1
   \<and> fst (read_line (TextFileBase_init (''HELLO'' @ CR @ ''WORLD'') ''D'' ''I'' ''''))
       = ''HELLO''
   \<and> fst (snd (read_line (TextFileBase_init (''HELLO'' @ CR @ ''WORLD'') ''D'' ''I'' '''')))
       = Some CR
   \<and> fst (read_line (snd (snd (read_line
         (TextFileBase_init (''HELLO'' @ CR @ ''WORLD'') ''D'' ''I'' '''')))))
       = ''WORLD''
   \<and> fst (snd (read_line (snd (snd (read_line
         (TextFileBase_init (''HELLO'' @ CR @ ''WORLD'') ''D'' ''I'' ''''))))))
       = Some ''''
   \<and> fst (read_line (TextFileBase_init (replicate 255 (CHR ''A'') @ ''B'') ''D'' ''I'' ''''))
       = replicate 255 (CHR ''A'')
   \<and> fst (snd (read_line
         (TextFileBase_init (replicate 255 (CHR ''A'') @ ''B'') ''D'' ''I'' '''')))
       = None"
proof -
  let ?F = "TextFileBase_init (''HELLO'' @ CR @ ''WORLD'') ''D'' ''I'' ''''"
  let ?F1 = "snd (snd (read_line ?F))"
  have wf: "length (next_char ?F) \<le> 1" by (rule next_char_init)
  have p: "pending ?F = ''HELLO'' @ CR @ ''WORLD''" by (simp add: pending_init)
  have s1: "spec_read_line (''HELLO'' @ CR @ ''WORLD'') = (''HELLO'', Some CR, ''WORLD'')"
    by (simp add: spec_read_line_def spec_read_line_cap_def)
  have s2: "spec_read_line ''WORLD'' = (''WORLD'', Some '''', '''')"
    by (simp add: spec_read_line_def spec_read_line_cap_def)
  have r1: "fst (read_line ?F) = ''HELLO''" "fst (snd (read_line ?F)) = Some CR"
      "pending ?F1 = ''WORLD''" "length (next_char ?F1) \<le> 1"
    using read_line_result [OF wf] by (simp_all only: p s1 prod.inject)
  have r2: "fst (read_line ?F1) = ''WORLD''" "fst (snd (read_line ?F1)) = Some ''''"
    using read_line_result [OF r1(4)] by (simp_all only: r1(3) s2 prod.inject)
  let ?G = "TextFileBase_init (replicate 255 (CHR ''A'') @ ''B'') ''D'' ''I'' ''''"
  have wfg: "length (next_char ?G) \<le> 1" by (rule next_char_init)
  have pg: "pending ?G = replicate 255 (CHR ''A'') @ ''B''" by (simp add: pending_init)
  have s3: "spec_read_line (replicate 255 (CHR ''A'') @ ''B'')
              = (replicate 255 (CHR ''A''), None, ''B'')"
    by (simp add: spec_read_line_def spec_read_line_cap_def)
  have r3: "fst (read_line ?G) = replicate 255 (CHR ''A'')" "fst (snd (read_line ?G)) = None"
    using read_line_result [OF wfg] by (simp_all only: pg s3 prod.inject)
  show ?thesis using wf r1 r2 r3 by simp
qed

text \<open>
  C6 as the claim states it fails on a stream with the soft end-of-file marker: on
  \<^verbatim>\<open>AB\<close>, the marker, \<^verbatim>\<open>CD\<close> the line read is \<^verbatim>\<open>AB\<close> with the empty terminator, and no
  CR, no physical end of the stream and no 255 characters ended it: \<^verbatim>\<open>CD\<close> is still in
  the stream.
\<close>

theorem read_line_result_counterexample:
  "read_line (TextFileBase_init (''AB'' @ SUB @ ''CD'') ''D'' ''I'' '''')
     = (''AB'', Some '''',
        \<lparr>fhandle = ''CD'', written = '''', filetype = ''D'', mode = ''I'', width = 255, col = 1,
         next_char = SUB, cur_char = ''B'', last_char = ''A'', soft_sep = '' ''\<rparr>)"
  by (simp add: read_line_def read_line_loop.simps read_one_eq shift_lookahead_def
      TextFileBase_init_def upper_def)

section \<open>Properties of the buffered tokenizer\<close>

lemma py_in_single: "py_in [c] s \<longleftrightarrow> c \<in> set s"
  by (induction s) auto

lemma py_in_empty: "py_in [] s"
  by (induction s) auto

lemma skip_whitespace_loop_spec:
  assumes "length (next_char f) \<le> 1" and "CHR 0x1A \<notin> set ws"
  shows "\<exists>f'. skip_whitespace_loop ws c f = Some (fst (leading_run ws c (pending f)), f')
           \<and> pending f' = snd (leading_run ws c (pending f))
           \<and> length (next_char f') \<le> 1
           \<and> soft_sep f' = soft_sep f"
  using assms(1)
proof (induction "length (pending f)" arbitrary: f c rule: less_induct)
  case less
  note wf = less.prems
  show ?case
  proof (cases "pending f")
    case Nil
    have cnd: "(next_char f \<noteq> '''' \<and> py_in (next_char f) ws) = False"
    proof -
      have False if a: "next_char f \<noteq> '''' \<and> py_in (next_char f) ws"
      proof -
        from a obtain d where d: "next_char f = [d]" using wf by (cases "next_char f") auto
        with a have "d \<in> set ws" by (simp add: py_in_single)
        with assms(2) have "d \<noteq> CHR 0x1A" by auto
        with d Nil show False by (simp add: pending_def)
      qed
      then show ?thesis by blast
    qed
    show ?thesis using Nil wf
      by (subst skip_whitespace_loop.simps) (simp add: cnd)
  next
    case (Cons d cs)
    have nc: "next_char f = [d]"
      using next_char_pending [OF wf] Cons by (auto split: if_splits)
    obtain c1 f1 where r: "read_one f = (c1, f1)" by (cases "read_one f") auto
    have f1: "c1 = [d]" "pending f1 = cs" "length (next_char f1) \<le> 1"
      using read_one_pending [OF wf] r Cons by simp_all
    have s1: "soft_sep f1 = soft_sep f"
      using r nc by (auto simp: read_one_eq shift_lookahead_def split: if_splits)
    show ?thesis
    proof (cases "d \<in> set ws")
      case False
      then show ?thesis using nc Cons wf
        by (subst skip_whitespace_loop.simps) (simp add: py_in_single)
    next
      case True
      obtain c2 f2 where r2: "read_one f1 = (c2, f2)" by (cases "read_one f1") auto
      have f2: "pending f2 = drop 1 cs" "length (next_char f2) \<le> 1"
        using read_one_pending [OF f1(3)] r2 f1(2) by simp_all
      have s2: "soft_sep f2 = soft_sep f"
        using r2 s1 by (auto simp: read_one_eq shift_lookahead_def split: if_splits)
      have ncr: "(next_char f1 = CR) = (take 1 cs = CR)"
        using next_char_pending [OF f1(3)] f1(2) by auto
      show ?thesis
      proof (cases "[d] = LF \<and> take 1 cs = CR")
        case lfcr: True
        have "length (pending f2) < length (pending f)" using f2 Cons by simp
        from less.hyps [OF this f2(2), of "[d]"] obtain f' where
          "skip_whitespace_loop ws [d] f2 = Some (fst (leading_run ws [d] (pending f2)), f')"
          "pending f' = snd (leading_run ws [d] (pending f2))"
          "length (next_char f') \<le> 1" "soft_sep f' = soft_sep f2" by blast
        then show ?thesis
          using nc True lfcr r r2 f1 f2 ncr Cons s2
          by (subst skip_whitespace_loop.simps) (simp add: py_in_single)
      next
        case nolf: False
        have "length (pending f1) < length (pending f)" using f1 Cons by simp
        from less.hyps [OF this f1(3), of "[d]"] obtain f' where
          "skip_whitespace_loop ws [d] f1 = Some (fst (leading_run ws [d] (pending f1)), f')"
          "pending f' = snd (leading_run ws [d] (pending f1))"
          "length (next_char f') \<le> 1" "soft_sep f' = soft_sep f1" by blast
        then show ?thesis
          using nc True nolf r f1 ncr Cons s1
          by (subst skip_whitespace_loop.simps) (auto simp: py_in_single)
      qed
    qed
  qed
qed

lemma skip_whitespace_spec:
  assumes "length (next_char f) \<le> 1" and "CHR 0x1A \<notin> set ws"
  shows "\<exists>f'. skip_whitespace ws f = Some (fst (leading_run ws '''' (pending f)), f')
           \<and> pending f' = snd (leading_run ws '''' (pending f))
           \<and> length (next_char f') \<le> 1
           \<and> soft_sep f' = soft_sep f"
  unfolding skip_whitespace_def by (rule skip_whitespace_loop_spec [OF assms])

lemma read_one_soft_sep: "soft_sep (snd (read_one f)) = soft_sep f"
  by (simp add: read_one_eq shift_lookahead_def)

lemma input_entry_head_spec:
  assumes "length (next_char f) \<le> 1"
  shows "\<exists>f3. input_entry_head typechar f
            = Some (last_skipped (pending f), take 1 (after_whitespace (pending f)),
                    quoting_applies typechar (pending f),
                    (if quoting_applies typechar (pending f)
                     then take 1 (drop 1 (after_whitespace (pending f)))
                     else take 1 (after_whitespace (pending f))),
                    f3)
           \<and> pending f3 = (if quoting_applies typechar (pending f)
                             then drop 1 (drop 1 (after_whitespace (pending f)))
                             else drop 1 (after_whitespace (pending f)))
           \<and> length (next_char f3) \<le> 1
           \<and> soft_sep f3 = soft_sep f"
proof -
  have sub: "CHR 0x1A \<notin> set whitespace_input" by (simp add: whitespace_input_def)
  obtain f1 where f1: "skip_whitespace whitespace_input f = Some (last_skipped (pending f), f1)"
      "pending f1 = after_whitespace (pending f)" "length (next_char f1) \<le> 1"
      "soft_sep f1 = soft_sep f"
    using skip_whitespace_spec [OF assms sub]
    by (auto simp: last_skipped_def after_whitespace_def)
  obtain c f2 where r: "read_one f1 = (c, f2)" by (cases "read_one f1") auto
  have f2: "c = take 1 (after_whitespace (pending f))"
      "pending f2 = drop 1 (after_whitespace (pending f))" "length (next_char f2) \<le> 1"
      "soft_sep f2 = soft_sep f"
    using read_one_pending [OF f1(3)] read_one_soft_sep [of f1] r f1 by simp_all
  obtain c1 f3 where r3: "read_one f2 = (c1, f3)" by (cases "read_one f2") auto
  have f3: "c1 = take 1 (drop 1 (after_whitespace (pending f)))"
      "pending f3 = drop 1 (drop 1 (after_whitespace (pending f)))" "length (next_char f3) \<le> 1"
      "soft_sep f3 = soft_sep f"
    using read_one_pending [OF f2(3)] read_one_soft_sep [of f2] r3 f2 by simp_all
  show ?thesis
  proof (cases "quoting_applies typechar (pending f)")
    case True
    then show ?thesis
      using f1 r f2 r3 f3
      by (simp add: input_entry_head_def quoting_applies_def)
  next
    case False
    then show ?thesis
      using f1 r f2
      by (auto simp: input_entry_head_def quoting_applies_def)
  qed
qed

lemma read_one_wf:
  "length (next_char f) \<le> 1 \<Longrightarrow> length (next_char (snd (read_one f))) \<le> 1"
  by (rule read_one_pending(3))

lemma input_entry_loop_unfold:
  "input_entry_loop typechar quoted c word blanks f =
     (if scan_goes_on typechar quoted c (soft_sep f)
      then
        if c = DQUOTE \<and> quoted then (word, c, f)
        else if c = LF \<and> \<not> quoted then
          (case read_one f of (c1, f1) \<Rightarrow>
             if c1 = CR
             then (case read_one f1 of (c2, f2) \<Rightarrow> input_entry_loop typechar quoted c2 word blanks f2)
             else input_entry_loop typechar quoted c1 word blanks f1)
        else
          (case scan_accumulate typechar quoted c word blanks of
             (word1, blanks1) \<Rightarrow>
               if length word1 + length blanks1 \<ge> 255 then (word1, c, f)
               else (case read_one f of
                       (c1, f1) \<Rightarrow> input_entry_loop typechar quoted c1 word1 blanks1 f1))
      else (word, c, f))"
  unfolding scan_goes_on_def scan_accumulate_def
  by (subst input_entry_loop.simps) (simp add: read_one_def)

lemma input_entry_loop_wf:
  "length (next_char f) \<le> 1 \<Longrightarrow>
   length (next_char (snd (snd (input_entry_loop typechar quoted c word blanks f)))) \<le> 1
   \<and> soft_sep (snd (snd (input_entry_loop typechar quoted c word blanks f))) = soft_sep f"
proof (induction typechar quoted c word blanks f rule: input_entry_loop.induct)
  case (1 typechar quoted c word blanks f)
  note wf = "1.prems"
  show ?case
  proof (cases "scan_goes_on typechar quoted c (soft_sep f)")
    case False
    then show ?thesis using wf by (subst (1 2) input_entry_loop_unfold) auto
  next
    case go: True
    note cont = go [unfolded scan_goes_on_def]
    show ?thesis
    proof (cases "c = DQUOTE \<and> quoted")
      case True
      then show ?thesis using wf go by (subst (1 2) input_entry_loop_unfold) auto
    next
      case nq: False
      show ?thesis
      proof (cases "c = LF \<and> \<not> quoted")
        case lf: True
        obtain c1 f1 where r1: "read_one f = (c1, f1)" by (cases "read_one f") auto
        obtain c2 f2 where r2: "read_one f1 = (c2, f2)" by (cases "read_one f1") auto
        have w1: "length (next_char f1) \<le> 1" "soft_sep f1 = soft_sep f"
          using read_one_wf [OF wf] read_one_soft_sep [of f] r1 by simp_all
        have w2: "length (next_char f2) \<le> 1" "soft_sep f2 = soft_sep f"
          using read_one_wf [OF w1(1)] read_one_soft_sep [of f1] r2 w1 by simp_all
        show ?thesis
        proof (cases "c1 = CR")
          case True
          from "1.IH"(1) [OF cont nq lf r1 [symmetric] True r2 [symmetric] w2(1)]
          show ?thesis
            using go lf r1 r2 True w2
            by (subst (1 2) input_entry_loop_unfold) auto
        next
          case False
          from "1.IH"(2) [OF cont nq lf r1 [symmetric] False w1(1)]
          show ?thesis
            using go lf r1 False w1
            by (subst (1 2) input_entry_loop_unfold) auto
        qed
      next
        case nlf: False
        obtain word1 blanks1 where wb:
          "scan_accumulate typechar quoted c word blanks = (word1, blanks1)"
          by (metis surj_pair)
        note wb' = wb [unfolded scan_accumulate_def, symmetric]
        show ?thesis
        proof (cases "length word1 + length blanks1 \<ge> 255")
          case True
          then show ?thesis
            using go nq nlf wb wf
            by (subst (1 2) input_entry_loop_unfold) auto
        next
          case False
          obtain c1 f1 where r1': "read_one f = (c1, f1)" by (cases "read_one f") auto
          then have r1: "(c1, f1) = (if \<not> quoted then read_one f else input_chars 1 f)"
            by (simp add: read_one_def)
          have w1: "length (next_char f1) \<le> 1" "soft_sep f1 = soft_sep f"
            using read_one_wf [OF wf] read_one_soft_sep [of f] r1' by simp_all
          from "1.IH"(3) [OF cont nq nlf wb' False r1 w1(1)]
          show ?thesis
            using go nq nlf wb False r1' w1
            by (subst (1 2) input_entry_loop_unfold) auto
        qed
      qed
    qed
  qed
qed

lemma take_1_empty: "(take 1 xs = []) = (xs = [])"
  by (cases xs) simp_all

lemma input_entry_total:
  assumes "length (next_char f) \<le> 1"
    and "input_entry_head typechar f = Some (lastw, c0, quoted, c, f3)"
    and "length (next_char f3) \<le> 1"
    and "\<not> (c = '''' \<and> \<not> allow_past_end \<and> lastw \<noteq> LF \<and> lastw \<noteq> NUL)"
  shows "\<exists>word c2 f'. input_entry typechar allow_past_end f = Some (Inr (word, c2, f'))"
proof -
  obtain word c2 f4 where l: "input_entry_loop typechar quoted c '''' '''' f3 = (word, c2, f4)"
    by (metis surj_pair)
  have w4: "length (next_char f4) \<le> 1"
    using input_entry_loop_wf [OF assms(3), of typechar quoted c "[]" "[]"] l by simp
  have sub: "CHR 0x1A \<notin> set '' ''" by simp
  obtain sp f5 where s5: "skip_whitespace '' '' f4 = Some (sp, f5)"
    using skip_whitespace_spec [OF w4 sub] by blast
  obtain c3 f6 where r6: "read_one f5 = (c3, f6)" by (metis surj_pair)
  show ?thesis
    using assms(2,4) l s5 r6
    by (simp add: input_entry_def input_entry_tail_def split: if_splits)
qed

lemma input_entry_loop_prefix:
  "prefix word (fst (input_entry_loop typechar quoted c word blanks f))"
proof (induction typechar quoted c word blanks f rule: input_entry_loop.induct)
  case (1 typechar quoted c word blanks f)
  show ?case
  proof (cases "scan_goes_on typechar quoted c (soft_sep f)")
    case False
    then show ?thesis by (subst input_entry_loop_unfold) simp
  next
    case go: True
    note cont = go [unfolded scan_goes_on_def]
    show ?thesis
    proof (cases "c = DQUOTE \<and> quoted")
      case True
      then show ?thesis using go by (subst input_entry_loop_unfold) simp
    next
      case nq: False
      show ?thesis
      proof (cases "c = LF \<and> \<not> quoted")
        case lf: True
        obtain c1 f1 where r1: "read_one f = (c1, f1)" by (cases "read_one f") auto
        obtain c2 f2 where r2: "read_one f1 = (c2, f2)" by (cases "read_one f1") auto
        show ?thesis
        proof (cases "c1 = CR")
          case True
          from "1.IH"(1) [OF cont nq lf r1 [symmetric] True r2 [symmetric]]
          show ?thesis
            using go lf r1 r2 True
            by (subst input_entry_loop_unfold) auto
        next
          case False
          from "1.IH"(2) [OF cont nq lf r1 [symmetric] False]
          show ?thesis
            using go lf r1 False
            by (subst input_entry_loop_unfold) auto
        qed
      next
        case nlf: False
        obtain word1 blanks1 where wb:
          "scan_accumulate typechar quoted c word blanks = (word1, blanks1)"
          by (metis surj_pair)
        note wb' = wb [unfolded scan_accumulate_def, symmetric]
        have p1: "prefix word word1"
          using wb by (auto simp: scan_accumulate_def split: if_splits)
        show ?thesis
        proof (cases "length word1 + length blanks1 \<ge> 255")
          case True
          then show ?thesis
            using go nq nlf wb p1
            by (subst input_entry_loop_unfold) auto
        next
          case False
          obtain c1 f1 where r1': "read_one f = (c1, f1)" by (cases "read_one f") auto
          then have r1: "(c1, f1) = (if \<not> quoted then read_one f else input_chars 1 f)"
            by (simp add: read_one_def)
          have "prefix word1 (fst (input_entry_loop typechar quoted c1 word1 blanks1 f1))"
            by (rule "1.IH"(3) [OF cont nq nlf wb' False r1])
          then have "prefix word (fst (input_entry_loop typechar quoted c1 word1 blanks1 f1))"
            using p1 by (metis prefix_order.order_trans)
          then show ?thesis
            using go nq nlf wb False r1'
            by (subst input_entry_loop_unfold) auto
        qed
      qed
    qed
  qed
qed

lemma input_entry_loop_unquoted_quote:
  assumes "CHR 0x22 \<notin> set (soft_sep f)"
  shows "take 1 (fst (input_entry_loop typechar False DQUOTE '''' '''' f)) = DQUOTE"
proof -
  have go: "scan_goes_on typechar False DQUOTE (soft_sep f)"
    using assms by (simp add: scan_goes_on_def py_in_single)
  have acc: "scan_accumulate typechar False DQUOTE '''' '''' = (DQUOTE, '''')"
    by (simp add: scan_accumulate_def whitespace_input_def)
  obtain c1 f1 where r1: "read_one f = (c1, f1)" by (cases "read_one f") auto
  have "prefix DQUOTE (fst (input_entry_loop typechar False c1 DQUOTE '''' f1))"
    by (rule input_entry_loop_prefix)
  then have "prefix DQUOTE (fst (input_entry_loop typechar False DQUOTE '''' '''' f))"
    using go acc r1 by (subst input_entry_loop_unfold) simp
  then show ?thesis by (auto simp: prefix_def)
qed

lemma input_entry_loop_quoted:
  "length (next_char f) \<le> 1 \<Longrightarrow> length c \<le> 1 \<Longrightarrow> (c = '''' \<longrightarrow> pending f = '''') \<Longrightarrow>
   typechar = values_STR \<Longrightarrow> quoted \<Longrightarrow> blanks = '''' \<Longrightarrow> length word < 255 \<Longrightarrow>
   fst (input_entry_loop typechar quoted c word blanks f)
     = word @ take (255 - length word)
         (filter (\<lambda>x. x \<noteq> CHR 0x00) (takeWhile (\<lambda>x. x \<noteq> CHR 0x22) (c @ pending f)))"
proof (induction typechar quoted c word blanks f rule: input_entry_loop.induct)
  case (1 typechar quoted c word blanks f)
  note wf = "1.prems"(1) and lc = "1.prems"(2) and ce = "1.prems"(3) and ty = "1.prems"(4)
    and q = "1.prems"(5) and bl = "1.prems"(6) and lw = "1.prems"(7)
  show ?case
  proof (cases "c = ''''")
    case True
    then have "\<not> scan_goes_on typechar quoted c (soft_sep f)" by (simp add: scan_goes_on_def)
    then show ?thesis using True ce by (subst input_entry_loop_unfold) simp
  next
    case ne: False
    then obtain x where cx: "c = [x]" using lc by (cases c) auto
    have go: "scan_goes_on typechar quoted c (soft_sep f)"
      using ne ty q by (simp add: scan_goes_on_def)
    note cont = go [unfolded scan_goes_on_def]
    show ?thesis
    proof (cases "c = DQUOTE \<and> quoted")
      case True
      then show ?thesis using go cx by (subst input_entry_loop_unfold) simp
    next
      case nq: False
      then have xq: "x \<noteq> CHR 0x22" using cx q by simp
      have nlf: "\<not> (c = LF \<and> \<not> quoted)" using q by simp
      obtain word1 blanks1 where wb:
        "scan_accumulate typechar quoted c word blanks = (word1, blanks1)"
        by (metis surj_pair)
      note wb' = wb [unfolded scan_accumulate_def, symmetric]
      have w1: "word1 = (if x = CHR 0x00 then word else word @ [x])" "blanks1 = ''''"
        using wb cx q bl by (auto simp: scan_accumulate_def split: if_splits)
      show ?thesis
      proof (cases "length word1 + length blanks1 \<ge> 255")
        case True
        then have x0: "x \<noteq> CHR 0x00" and l254: "length word = 254"
          using w1 lw by (auto split: if_splits)
        have "fst (input_entry_loop typechar quoted c word blanks f) = word1"
          using go nq nlf wb True by (subst input_entry_loop_unfold) auto
        then show ?thesis using w1 x0 xq cx l254 by simp
      next
        case False
        obtain c1 f1 where r1': "read_one f = (c1, f1)" by (cases "read_one f") auto
        then have r1: "(c1, f1) = (if \<not> quoted then read_one f else input_chars 1 f)"
          by (simp add: read_one_def)
        have p1: "c1 = take 1 (pending f)" "pending f1 = drop 1 (pending f)"
            "length (next_char f1) \<le> 1"
          using read_one_pending [OF wf] r1' by simp_all
        have lc1: "length c1 \<le> 1" using p1 by simp
        have ce1: "c1 = '''' \<longrightarrow> pending f1 = ''''" using p1 by (simp add: take_1_empty)
        have cp: "c1 @ pending f1 = pending f" using p1 by simp
        have lw1: "length word1 < 255" using False w1 by simp
        have "fst (input_entry_loop typechar quoted c1 word1 blanks1 f1)
                = word1 @ take (255 - length word1)
                    (filter (\<lambda>x. x \<noteq> CHR 0x00) (takeWhile (\<lambda>x. x \<noteq> CHR 0x22) (c1 @ pending f1)))"
          by (rule "1.IH"(3) [OF cont nq nlf wb' False r1 p1(3) lc1 ce1 ty q w1(2) lw1])
        moreover have "fst (input_entry_loop typechar quoted c word blanks f)
                = fst (input_entry_loop typechar quoted c1 word1 blanks1 f1)"
          using go nq nlf wb False r1' by (subst input_entry_loop_unfold) auto
        ultimately show ?thesis
          using w1 cx xq cp lw by (auto simp: Suc_diff_Suc take_Cons')
      qed
    qed
  qed
qed

lemma input_entry_word:
  assumes "input_entry_head typechar f = Some (lastw, c0, quoted, c, f3)"
    and "input_entry typechar allow_past_end f = Some (Inr (word, c2, f'))"
  shows "word = fst (input_entry_loop typechar quoted c '''' '''' f3)"
  using assms
  by (auto simp: input_entry_def input_entry_tail_def split: if_splits prod.splits option.splits)

text \<open>
  C1. On a file whose lookahead holds at most one character, with \<open>L\<close> the last
  character skipped in the leading whitespace and \<open>A\<close> the characters after it, let \<open>Q\<close>
  say that the target type is the string type, the first character of \<open>A\<close> is a double
  quote, and \<open>L\<close> is neither LF nor NUL. Then \<^verbatim>\<open>input_entry\<close> of the buffered source
  reads the field in quoted mode iff \<open>Q\<close>: its flag \<^verbatim>\<open>quoted\<close> is \<open>Q\<close>, the scanning loop
  and the skip of the trailing whitespace run with \<open>Q\<close> for \<^verbatim>\<open>quoted\<close>, and the scan starts
  after the quote when \<open>Q\<close> holds and at the first character of \<open>A\<close> when it does not.
  When \<open>Q\<close> holds and the input does not end at the quote, the word returned is what
  follows the opening quote up to the next double quote, commas, CR and LF included, NUL
  dropped, cut at 255 characters. When \<open>A\<close> starts with a double quote and \<open>Q\<close> does not
  hold, the quote is an ordinary character and the word returned starts with it; so it
  is for every target type other than the string type, where \<open>Q\<close> never holds. (The
  double quote is not a soft separator of any file of the source.)
\<close>

theorem quoting_rule:
  assumes "length (next_char f) \<le> 1"
  shows
    "let L = last_skipped (pending f);
         A = after_whitespace (pending f);
         Q = (typechar = values_STR \<and> take 1 A = DQUOTE \<and> L \<noteq> LF \<and> L \<noteq> NUL)
     in (\<exists>f3. input_entry_head typechar f
                 = Some (L, take 1 A, Q, (if Q then take 1 (drop 1 A) else take 1 A), f3)
              \<and> pending f3 = (if Q then drop 1 (drop 1 A) else drop 1 A)
              \<and> input_entry typechar allow_past_end f
                  = (if (if Q then drop 1 A = '''' else A = '''') \<and> \<not> allow_past_end
                        \<and> L \<noteq> LF \<and> L \<noteq> NUL
                     then Some (Inl INPUT_PAST_END)
                     else input_entry_tail Q
                            (input_entry_loop typechar Q
                               (if Q then take 1 (drop 1 A) else take 1 A) '''' '''' f3)))
        \<and> (Q \<longrightarrow>
             (\<exists>sep f'. input_entry typechar allow_past_end f
                 = (if drop 1 A = '''' \<and> \<not> allow_past_end then Some (Inl INPUT_PAST_END)
                    else Some (Inr (take 255 (filter (\<lambda>x. x \<noteq> CHR 0x00)
                                       (takeWhile (\<lambda>x. x \<noteq> CHR 0x22) (drop 1 A))),
                                    sep, f')))))
        \<and> (\<not> Q \<and> take 1 A = DQUOTE \<and> CHR 0x22 \<notin> set (soft_sep f) \<longrightarrow>
             (\<exists>word sep f'. input_entry typechar allow_past_end f = Some (Inr (word, sep, f'))
                 \<and> take 1 word = DQUOTE))
        \<and> (typechar \<noteq> values_STR \<longrightarrow>
             \<not> Q
             \<and> (take 1 A = DQUOTE \<and> CHR 0x22 \<notin> set (soft_sep f) \<longrightarrow>
                  (\<exists>word sep f'. input_entry typechar allow_past_end f = Some (Inr (word, sep, f'))
                      \<and> take 1 word = DQUOTE)))"
proof -
  define L where "L = last_skipped (pending f)"
  define A where "A = after_whitespace (pending f)"
  define Q where "Q = (typechar = values_STR \<and> take 1 A = DQUOTE \<and> L \<noteq> LF \<and> L \<noteq> NUL)"
  define c where "c = (if Q then take 1 (drop 1 A) else take 1 A)"
  have QA: "Q = quoting_applies typechar (pending f)"
    by (simp add: Q_def quoting_applies_def A_def L_def)
  obtain f3 where h: "input_entry_head typechar f = Some (L, take 1 A, Q, c, f3)"
    and p3: "pending f3 = (if Q then drop 1 (drop 1 A) else drop 1 A)"
    and w3: "length (next_char f3) \<le> 1"
    and s3: "soft_sep f3 = soft_sep f"
    using input_entry_head_spec [OF assms, of typechar]
    unfolding QA c_def A_def L_def by blast
  have ce: "(c = '''') = (if Q then drop 1 A = '''' else A = '''')"
    by (simp add: c_def take_1_empty)
  have ie: "input_entry typechar allow_past_end f
              = (if (if Q then drop 1 A = '''' else A = '''') \<and> \<not> allow_past_end
                    \<and> L \<noteq> LF \<and> L \<noteq> NUL
                 then Some (Inl INPUT_PAST_END)
                 else input_entry_tail Q (input_entry_loop typechar Q c '''' '''' f3))"
    using h ce by (simp add: input_entry_def)
  have c1: "\<exists>f3. input_entry_head typechar f = Some (L, take 1 A, Q, c, f3)
              \<and> pending f3 = (if Q then drop 1 (drop 1 A) else drop 1 A)
              \<and> input_entry typechar allow_past_end f
                  = (if (if Q then drop 1 A = '''' else A = '''') \<and> \<not> allow_past_end
                        \<and> L \<noteq> LF \<and> L \<noteq> NUL
                     then Some (Inl INPUT_PAST_END)
                     else input_entry_tail Q (input_entry_loop typechar Q c '''' '''' f3))"
    using h p3 ie by blast
  have ret: "\<not> (c = '''' \<and> \<not> allow_past_end \<and> L \<noteq> LF \<and> L \<noteq> NUL) \<Longrightarrow>
      \<exists>sep f'. input_entry typechar allow_past_end f
          = Some (Inr (fst (input_entry_loop typechar Q c '''' '''' f3), sep, f'))"
  proof -
    assume nr: "\<not> (c = '''' \<and> \<not> allow_past_end \<and> L \<noteq> LF \<and> L \<noteq> NUL)"
    obtain word c2 f' where r: "input_entry typechar allow_past_end f = Some (Inr (word, c2, f'))"
      using input_entry_total [OF assms h w3 nr] by blast
    have "word = fst (input_entry_loop typechar Q c '''' '''' f3)"
      by (rule input_entry_word [OF h r])
    with r show ?thesis by blast
  qed
  have c2: "Q \<longrightarrow>
             (\<exists>sep f'. input_entry typechar allow_past_end f
                 = (if drop 1 A = '''' \<and> \<not> allow_past_end then Some (Inl INPUT_PAST_END)
                    else Some (Inr (take 255 (filter (\<lambda>x. x \<noteq> CHR 0x00)
                                       (takeWhile (\<lambda>x. x \<noteq> CHR 0x22) (drop 1 A))),
                                    sep, f'))))"
  proof
    assume q: Q
    then have ty: "typechar = values_STR" and ll: "L \<noteq> LF" "L \<noteq> NUL" by (simp_all add: Q_def)
    have cq: "c = take 1 (drop 1 A)" and pq: "pending f3 = drop 1 (drop 1 A)"
      using q p3 by (simp_all add: c_def)
    show "\<exists>sep f'. input_entry typechar allow_past_end f
                 = (if drop 1 A = '''' \<and> \<not> allow_past_end then Some (Inl INPUT_PAST_END)
                    else Some (Inr (take 255 (filter (\<lambda>x. x \<noteq> CHR 0x00)
                                       (takeWhile (\<lambda>x. x \<noteq> CHR 0x22) (drop 1 A))),
                                    sep, f')))"
    proof (cases "drop 1 A = '''' \<and> \<not> allow_past_end")
      case True
      then show ?thesis using ie q ll by simp
    next
      case False
      then have nr: "\<not> (c = '''' \<and> \<not> allow_past_end \<and> L \<noteq> LF \<and> L \<noteq> NUL)"
        using ce q by simp
      have lc: "length c \<le> 1" by (simp add: cq)
      have cemp: "c = '''' \<longrightarrow> pending f3 = ''''" using cq pq by (simp add: take_1_empty)
      have "fst (input_entry_loop typechar Q c '''' '''' f3)
              = '''' @ take (255 - length ('''' :: string))
                  (filter (\<lambda>x. x \<noteq> CHR 0x00) (takeWhile (\<lambda>x. x \<noteq> CHR 0x22) (c @ pending f3)))"
        by (rule input_entry_loop_quoted [OF w3 lc cemp ty q]) simp_all
      moreover have "c @ pending f3 = drop 1 A" by (simp only: cq pq append_take_drop_id)
      ultimately show ?thesis using ret [OF nr] False by auto
    qed
  qed
  have c3: "\<not> Q \<and> take 1 A = DQUOTE \<and> CHR 0x22 \<notin> set (soft_sep f) \<longrightarrow>
             (\<exists>word sep f'. input_entry typechar allow_past_end f = Some (Inr (word, sep, f'))
                 \<and> take 1 word = DQUOTE)"
  proof
    assume a: "\<not> Q \<and> take 1 A = DQUOTE \<and> CHR 0x22 \<notin> set (soft_sep f)"
    then have cd: "c = DQUOTE" by (simp add: c_def)
    then have nr: "\<not> (c = '''' \<and> \<not> allow_past_end \<and> L \<noteq> LF \<and> L \<noteq> NUL)" by simp
    have "take 1 (fst (input_entry_loop typechar False DQUOTE '''' '''' f3)) = DQUOTE"
      by (rule input_entry_loop_unquoted_quote) (use a s3 in simp)
    then show "\<exists>word sep f'. input_entry typechar allow_past_end f = Some (Inr (word, sep, f'))
                 \<and> take 1 word = DQUOTE"
      using ret [OF nr] a cd by auto
  qed
  have c4: "typechar \<noteq> values_STR \<longrightarrow>
             \<not> Q
             \<and> (take 1 A = DQUOTE \<and> CHR 0x22 \<notin> set (soft_sep f) \<longrightarrow>
                  (\<exists>word sep f'. input_entry typechar allow_past_end f = Some (Inr (word, sep, f'))
                      \<and> take 1 word = DQUOTE))"
    using c3 by (simp add: Q_def)
  show ?thesis
    using c1 c2 c3 c4 unfolding Let_def c_def Q_def A_def L_def by blast
qed


theorem quoting_rule_witness:
  "length (next_char (TextFileBase_init (DQUOTE @ ''hello, world'' @ DQUOTE @ ''  ,9'' @ CR)
                        ''D'' ''I'' '''')) \<le> 1
   \<and> (\<exists>sep f'. input_entry values_STR False
          (TextFileBase_init (DQUOTE @ ''hello, world'' @ DQUOTE @ ''  ,9'' @ CR) ''D'' ''I'' '''')
        = Some (Inr (''hello, world'', sep, f')))
   \<and> (\<exists>word sep f'. input_entry values_STR False
          (TextFileBase_init ('' '' @ LF @ DQUOTE @ ''AB'' @ DQUOTE) ''D'' ''I'' '''')
        = Some (Inr (word, sep, f')) \<and> take 1 word = DQUOTE)
   \<and> (\<exists>word sep f'. input_entry values_STR False
          (TextFileBase_init (NUL @ DQUOTE @ ''AB'' @ DQUOTE) ''D'' ''I'' '''')
        = Some (Inr (word, sep, f')) \<and> take 1 word = DQUOTE)
   \<and> (\<exists>word sep f'. input_entry ''%'' False
          (TextFileBase_init (''  '' @ DQUOTE @ ''12'' @ DQUOTE) ''D'' ''I'' '''')
        = Some (Inr (word, sep, f')) \<and> take 1 word = DQUOTE)"
proof -
  have ss: "\<And>s. CHR 0x22 \<notin> set (soft_sep (TextFileBase_init s ''D'' ''I'' ''''))"
    by (simp add: TextFileBase_init_def upper_def)
  show ?thesis
    using quoting_rule [where f = "TextFileBase_init (DQUOTE @ ''hello, world'' @ DQUOTE @ ''  ,9'' @ CR) ''D'' ''I'' ''''"
        and typechar = values_STR and allow_past_end = False]
      quoting_rule [where f = "TextFileBase_init ('' '' @ LF @ DQUOTE @ ''AB'' @ DQUOTE) ''D'' ''I'' ''''"
        and typechar = values_STR and allow_past_end = False]
      quoting_rule [where f = "TextFileBase_init (NUL @ DQUOTE @ ''AB'' @ DQUOTE) ''D'' ''I'' ''''"
        and typechar = values_STR and allow_past_end = False]
      quoting_rule [where f = "TextFileBase_init (''  '' @ DQUOTE @ ''12'' @ DQUOTE) ''D'' ''I'' ''''"
        and typechar = "''%''" and allow_past_end = False]
      next_char_init [of "DQUOTE @ ''hello, world'' @ DQUOTE @ ''  ,9'' @ CR" "''D''" "''I''"]
      next_char_init [of "'' '' @ LF @ DQUOTE @ ''AB'' @ DQUOTE" "''D''" "''I''"]
      next_char_init [of "NUL @ DQUOTE @ ''AB'' @ DQUOTE" "''D''" "''I''"]
      next_char_init [of "''  '' @ DQUOTE @ ''12'' @ DQUOTE" "''D''" "''I''"]
    by (simp add: Let_def ss pending_init last_skipped_def after_whitespace_def whitespace_input_def
        values_STR_def)
qed

text \<open>
  C2, as amended. \<^verbatim>\<open>input_entry\<close> of the buffered source raises INPUT_PAST_END exactly
  when \<^verbatim>\<open>allow_past_end\<close> is false, the last whitespace character skipped is neither LF
  nor NUL, and no character can be read where the field starts: after the leading
  whitespace when quoting does not apply, after the opening quote when it does. In every
  other case it does not raise INPUT_PAST_END.
\<close>

theorem input_past_end_rule:
  assumes "length (next_char f) \<le> 1"
  shows "input_entry typechar allow_past_end f = Some (Inl INPUT_PAST_END)
           \<longleftrightarrow> \<not> allow_past_end
               \<and> last_skipped (pending f) \<noteq> LF \<and> last_skipped (pending f) \<noteq> NUL
               \<and> (if quoting_applies typechar (pending f)
                    then drop 1 (after_whitespace (pending f)) = ''''
                    else after_whitespace (pending f) = '''')"
proof -
  obtain f3 where h: "input_entry_head typechar f
            = Some (last_skipped (pending f), take 1 (after_whitespace (pending f)),
                    quoting_applies typechar (pending f),
                    (if quoting_applies typechar (pending f)
                     then take 1 (drop 1 (after_whitespace (pending f)))
                     else take 1 (after_whitespace (pending f))),
                    f3)"
    and w3: "length (next_char f3) \<le> 1"
    using input_entry_head_spec [OF assms, of typechar] by blast
  let ?c = "if quoting_applies typechar (pending f)
            then take 1 (drop 1 (after_whitespace (pending f)))
            else take 1 (after_whitespace (pending f))"
  let ?raise = "?c = '''' \<and> \<not> allow_past_end
      \<and> last_skipped (pending f) \<noteq> LF \<and> last_skipped (pending f) \<noteq> NUL"
  have ce: "(?c = '''') = (if quoting_applies typechar (pending f)
                     then drop 1 (after_whitespace (pending f)) = ''''
                     else after_whitespace (pending f) = '''')"
    by (simp add: take_1_empty)
  show ?thesis
  proof (cases ?raise)
    case True
    then have "input_entry typechar allow_past_end f = Some (Inl INPUT_PAST_END)"
      using h by (simp add: input_entry_def input_entry_tail_def)
    then show ?thesis using True ce by auto
  next
    case False
    then obtain word c2 f' where
      "input_entry typechar allow_past_end f = Some (Inr (word, c2, f'))"
      using input_entry_total [OF assms h w3] by blast
    then show ?thesis using False ce by auto
  qed
qed

lemma skip_whitespace_stop:
  "\<not> py_in (next_char f) ws \<Longrightarrow> skip_whitespace ws f = Some ('''', f)"
  by (subst skip_whitespace_def, subst skip_whitespace_loop.simps) simp

text \<open>
  C2 as the claim states it fails on the input of one double quote, read as a string:
  the quote is there after the (empty) leading whitespace and quoting applies, and
  INPUT_PAST_END is raised, for nothing follows the quote.
\<close>

theorem input_past_end_rule_counterexample:
  "input_entry values_STR False (TextFileBase_init DQUOTE ''D'' ''I'' '''')
     = Some (Inl INPUT_PAST_END)
   \<and> input_entry_head values_STR (TextFileBase_init DQUOTE ''D'' ''I'' '''')
     = Some ('''', DQUOTE, True, '''', shift_lookahead (TextFileBase_init DQUOTE ''D'' ''I'' ''''))"
proof -
  let ?F = "TextFileBase_init DQUOTE ''D'' ''I'' ''''"
  have nc: "next_char ?F = DQUOTE" "fhandle ?F = ''''"
    by (simp_all add: TextFileBase_init_def upper_def)
  have sk: "skip_whitespace whitespace_input ?F = Some ('''', ?F)"
    by (rule skip_whitespace_stop) (simp add: nc whitespace_input_def)
  have r1: "read_one ?F = (DQUOTE, shift_lookahead ?F)"
    by (simp add: read_one_eq nc)
  have r2: "read_one (shift_lookahead ?F) = ('''', shift_lookahead ?F)"
    by (simp add: read_one_eq) (simp add: shift_lookahead_def nc)
  have h: "input_entry_head values_STR ?F = Some ('''', DQUOTE, True, '''', shift_lookahead ?F)"
    by (simp add: input_entry_head_def sk r1 r2)
  then show ?thesis by (simp add: input_entry_def input_entry_tail_def)
qed

theorem input_past_end_rule_witness:
  "length (next_char (TextFileBase_init '''' ''D'' ''I'' '''')) \<le> 1
   \<and> input_entry ''%'' False (TextFileBase_init '''' ''D'' ''I'' '''') = Some (Inl INPUT_PAST_END)
   \<and> input_entry ''%'' False (TextFileBase_init LF ''D'' ''I'' '''') \<noteq> Some (Inl INPUT_PAST_END)
   \<and> input_entry ''%'' True (TextFileBase_init '''' ''D'' ''I'' '''') \<noteq> Some (Inl INPUT_PAST_END)"
  using input_past_end_rule [where f = "TextFileBase_init '''' ''D'' ''I'' ''''" and typechar = "''%''"
      and allow_past_end = False]
    input_past_end_rule [where f = "TextFileBase_init LF ''D'' ''I'' ''''" and typechar = "''%''"
      and allow_past_end = False]
    input_past_end_rule [where f = "TextFileBase_init '''' ''D'' ''I'' ''''" and typechar = "''%''"
      and allow_past_end = True]
    next_char_init [of "[]" "''D''" "''I''"] next_char_init [of LF "''D''" "''I''"]
  by (simp add: pending_init last_skipped_def after_whitespace_def whitespace_input_def
      values_STR_def quoting_applies_def)

lemma read_one_length: "length (next_char f) \<le> 1 \<Longrightarrow> length (fst (read_one f)) \<le> 1"
  by (simp add: read_one_eq)

lemma scan_accumulate_nul:
  assumes "length c \<le> 1" and "CHR 0x00 \<notin> set word" and "CHR 0x00 \<notin> set blanks"
    and "scan_accumulate typechar quoted c word blanks = (word1, blanks1)"
  shows "CHR 0x00 \<notin> set word1 \<and> CHR 0x00 \<notin> set blanks1"
proof -
  have "c \<noteq> NUL \<Longrightarrow> CHR 0x00 \<notin> set c"
    using assms(1) by (cases c) auto
  then show ?thesis
    using assms(2-4) by (auto simp: scan_accumulate_def split: if_splits)
qed

lemma input_entry_loop_nul:
  "length (next_char f) \<le> 1 \<Longrightarrow> length c \<le> 1 \<Longrightarrow>
   CHR 0x00 \<notin> set word \<Longrightarrow> CHR 0x00 \<notin> set blanks \<Longrightarrow>
   CHR 0x00 \<notin> set (fst (input_entry_loop typechar quoted c word blanks f))"
proof (induction typechar quoted c word blanks f rule: input_entry_loop.induct)
  case (1 typechar quoted c word blanks f)
  note wf = "1.prems"(1) and lc = "1.prems"(2) and nw = "1.prems"(3) and nb = "1.prems"(4)
  show ?case
  proof (cases "scan_goes_on typechar quoted c (soft_sep f)")
    case False
    then show ?thesis using nw by (subst input_entry_loop_unfold) simp
  next
    case go: True
    note cont = go [unfolded scan_goes_on_def]
    show ?thesis
    proof (cases "c = DQUOTE \<and> quoted")
      case True
      then show ?thesis using nw go by (subst input_entry_loop_unfold) simp
    next
      case nq: False
      show ?thesis
      proof (cases "c = LF \<and> \<not> quoted")
        case lf: True
        obtain c1 f1 where r1: "read_one f = (c1, f1)" by (cases "read_one f") auto
        obtain c2 f2 where r2: "read_one f1 = (c2, f2)" by (cases "read_one f1") auto
        have w1: "length (next_char f1) \<le> 1" "length c1 \<le> 1"
          using read_one_wf [OF wf] read_one_length [OF wf] r1 by simp_all
        have w2: "length (next_char f2) \<le> 1" "length c2 \<le> 1"
          using read_one_wf [OF w1(1)] read_one_length [OF w1(1)] r2 by simp_all
        show ?thesis
        proof (cases "c1 = CR")
          case True
          from "1.IH"(1) [OF cont nq lf r1 [symmetric] True r2 [symmetric] w2 nw nb]
          show ?thesis
            using go lf r1 r2 True
            by (subst input_entry_loop_unfold) auto
        next
          case False
          from "1.IH"(2) [OF cont nq lf r1 [symmetric] False w1 nw nb]
          show ?thesis
            using go lf r1 False
            by (subst input_entry_loop_unfold) auto
        qed
      next
        case nlf: False
        obtain word1 blanks1 where wb:
          "scan_accumulate typechar quoted c word blanks = (word1, blanks1)"
          by (metis surj_pair)
        note wb' = wb [unfolded scan_accumulate_def, symmetric]
        have n1: "CHR 0x00 \<notin> set word1" "CHR 0x00 \<notin> set blanks1"
          using scan_accumulate_nul [OF lc nw nb wb] by simp_all
        show ?thesis
        proof (cases "length word1 + length blanks1 \<ge> 255")
          case True
          then show ?thesis
            using go nq nlf wb n1
            by (subst input_entry_loop_unfold) auto
        next
          case False
          obtain c1 f1 where r1': "read_one f = (c1, f1)" by (cases "read_one f") auto
          then have r1: "(c1, f1) = (if \<not> quoted then read_one f else input_chars 1 f)"
            by (simp add: read_one_def)
          have w1: "length (next_char f1) \<le> 1" "length c1 \<le> 1"
            using read_one_wf [OF wf] read_one_length [OF wf] r1' by simp_all
          from "1.IH"(3) [OF cont nq nlf wb' False r1 w1 n1]
          show ?thesis
            using go nq nlf wb False r1'
            by (subst input_entry_loop_unfold) auto
        qed
      qed
    qed
  qed
qed

lemma input_entry_word_nul_free:
  assumes "length (next_char f) \<le> 1"
    and "input_entry typechar allow_past_end f = Some (Inr (word, c, f'))"
  shows "CHR 0x00 \<notin> set word"
proof -
  obtain f3 where h: "input_entry_head typechar f
            = Some (last_skipped (pending f), take 1 (after_whitespace (pending f)),
                    quoting_applies typechar (pending f),
                    (if quoting_applies typechar (pending f)
                     then take 1 (drop 1 (after_whitespace (pending f)))
                     else take 1 (after_whitespace (pending f))),
                    f3)"
    and w3: "length (next_char f3) \<le> 1"
    using input_entry_head_spec [OF assms(1), of typechar] by blast
  let ?c = "if quoting_applies typechar (pending f)
            then take 1 (drop 1 (after_whitespace (pending f)))
            else take 1 (after_whitespace (pending f))"
  have lc: "length ?c \<le> 1" by simp
  have "CHR 0x00 \<notin> set (fst (input_entry_loop typechar
          (quoting_applies typechar (pending f)) ?c '''' '''' f3))"
    by (rule input_entry_loop_nul [OF w3 lc]) simp_all
  moreover have "word = fst (input_entry_loop typechar
          (quoting_applies typechar (pending f)) ?c '''' '''' f3)"
    using assms(2) h
    by (auto simp: input_entry_def input_entry_tail_def split: if_splits prod.splits option.splits)
  ultimately show ?thesis by simp
qed

lemma buffered_A_NUL_B:
  "input_entry values_STR False (TextFileBase_init (''A'' @ NUL @ ''B'') ''D'' ''I'' '''')
     = Some (Inr (''AB'', '''',
         \<lparr>fhandle = '''', written = '''', filetype = ''D'', mode = ''I'', width = 255, col = 1,
          next_char = '''', cur_char = ''B'', last_char = NUL, soft_sep = '' ''\<rparr>))"
  by (simp add: input_entry_def input_entry_tail_def input_entry_head_def skip_whitespace_stop TextFileBase_init_def
      upper_def read_one_eq shift_lookahead_def whitespace_input_def values_STR_def
      input_entry_loop_unfold scan_goes_on_def scan_accumulate_def)

lemma buffered_hello_world:
  "\<exists>f'. input_entry values_STR False
          (TextFileBase_init (DQUOTE @ ''hello, world'' @ DQUOTE @ ''  ,9'' @ CR) ''D'' ''I'' '''')
        = Some (Inr (''hello, world'', '','', f'))
      \<and> pending f' = ''9'' @ CR"
  by (simp add: input_entry_def input_entry_tail_def input_entry_head_def skip_whitespace_stop
      skip_whitespace_def skip_whitespace_loop.simps TextFileBase_init_def
      upper_def read_one_eq shift_lookahead_def whitespace_input_def values_STR_def
      input_entry_loop_unfold scan_goes_on_def scan_accumulate_def pending_def)

lemma input_entry_loop_numeric:
  "length (next_char f) \<le> 1 \<Longrightarrow> length c \<le> 1 \<Longrightarrow> soft_sep f = '''' \<Longrightarrow>
   typechar \<noteq> values_STR \<Longrightarrow> length word < 255 \<Longrightarrow> CHR '' '' \<notin> set word \<Longrightarrow>
   fst (snd (input_entry_loop typechar False c word '''' f)) \<noteq> '' ''
   \<and> CHR '' '' \<notin> set (fst (input_entry_loop typechar False c word '''' f))"
proof (induction typechar "False" c word "'''' :: string" f rule: input_entry_loop.induct)
  case (1 typechar c word f)
  note wf = "1.prems"(1) and lc = "1.prems"(2) and ss = "1.prems"(3) and tc = "1.prems"(4)
    and lw = "1.prems"(5) and nw = "1.prems"(6)
  show ?case
  proof (cases "scan_goes_on typechar False c (soft_sep f)")
    case False
    then have "c \<noteq> '' ''" by (auto simp: scan_goes_on_def ss)
    with False show ?thesis using nw by (subst (1 2) input_entry_loop_unfold) simp
  next
    case go: True
    note cont = go [unfolded scan_goes_on_def]
    have nq: "\<not> (c = DQUOTE \<and> False)" by simp
    show ?thesis
    proof (cases "c = LF")
      case True
      then have lf: "c = LF \<and> \<not> False" by simp
      obtain c1 f1 where r1: "read_one f = (c1, f1)" by (cases "read_one f") auto
      obtain c2 f2 where r2: "read_one f1 = (c2, f2)" by (cases "read_one f1") auto
      have w1: "length (next_char f1) \<le> 1" "length c1 \<le> 1" "soft_sep f1 = ''''"
        using read_one_wf [OF wf] read_one_length [OF wf] read_one_soft_sep [of f] r1 ss
        by simp_all
      have w2: "length (next_char f2) \<le> 1" "length c2 \<le> 1" "soft_sep f2 = ''''"
        using read_one_wf [OF w1(1)] read_one_length [OF w1(1)] read_one_soft_sep [of f1] r2 w1(3)
        by simp_all
      show ?thesis
      proof (cases "c1 = CR")
        case cr: True
        from "1.hyps"(1) [OF cont nq lf r1 [symmetric] cr r2 [symmetric] w2 tc lw nw]
        show ?thesis
          using go lf r1 r2 cr
          by (subst (1 2) input_entry_loop_unfold) auto
      next
        case ncr: False
        from "1.hyps"(2) [OF cont nq lf r1 [symmetric] ncr w1 tc lw nw]
        show ?thesis
          using go lf r1 ncr
          by (subst (1 2) input_entry_loop_unfold) auto
      qed
    next
      case False
      then have nlf: "\<not> (c = LF \<and> \<not> False)" by simp
      obtain word1 blanks1 where wb:
        "scan_accumulate typechar False c word '''' = (word1, blanks1)"
        by (metis surj_pair)
      note wb' = wb [unfolded scan_accumulate_def, symmetric]
      have cne: "c \<noteq> ''''" using cont by simp
      then obtain y where y: "c = [y]" using lc by (cases c) auto
      have b1: "blanks1 = ''''" using wb tc by (auto simp: scan_accumulate_def split: if_splits)
      have n1: "CHR '' '' \<notin> set word1"
        using wb tc nw y
        by (auto simp: scan_accumulate_def py_in_single whitespace_input_def split: if_splits)
      have sp: "c = '' '' \<Longrightarrow> word1 = word"
        using wb tc by (auto simp: scan_accumulate_def whitespace_input_def split: if_splits)
      show ?thesis
      proof (cases "length word1 + length blanks1 \<ge> 255")
        case True
        then have "c \<noteq> '' ''" using sp lw b1 by auto
        then show ?thesis
          using go nlf wb n1 True
          by (subst (1 2) input_entry_loop_unfold) auto
      next
        case short: False
        obtain c1 f1 where r1': "read_one f = (c1, f1)" by (cases "read_one f") auto
        then have r1: "(c1, f1) = (if \<not> False then read_one f else input_chars 1 f)"
          by simp
        have w1: "length (next_char f1) \<le> 1" "length c1 \<le> 1" "soft_sep f1 = ''''"
          using read_one_wf [OF wf] read_one_length [OF wf] read_one_soft_sep [of f] r1' ss
          by simp_all
        have lw1: "length word1 < 255" using short by simp
        from "1.hyps"(3) [OF cont nq nlf wb' [unfolded b1] short [unfolded b1] r1 w1 tc lw1 n1]
        show ?thesis
          using go nlf wb short r1' b1
          by (subst (1 2) input_entry_loop_unfold) auto
      qed
    qed
  qed
qed

lemma read_one_not_space:
  "py_in (next_char f) ('','' @ CR) \<Longrightarrow> fst (read_one f) \<noteq> '' ''"
  by (auto simp: read_one_eq)

lemma input_entry_numeric_separator:
  assumes "length (next_char f) \<le> 1" and "soft_sep f = ''''" and "typechar \<noteq> values_STR"
    and "input_entry typechar allow_past_end f = Some (Inr (word, c, f'))"
  shows "c \<noteq> '' '' \<and> CHR '' '' \<notin> set word"
proof -
  have nq: "quoting_applies typechar (pending f) = False"
    using assms(3) by (simp add: quoting_applies_def)
  obtain f3 where h: "input_entry_head typechar f
            = Some (last_skipped (pending f), take 1 (after_whitespace (pending f)), False,
                    take 1 (after_whitespace (pending f)), f3)"
    and w3: "length (next_char f3) \<le> 1" and s3: "soft_sep f3 = ''''"
    using input_entry_head_spec [OF assms(1), of typechar] assms(2) by (auto simp: nq)
  let ?c = "take 1 (after_whitespace (pending f))"
  obtain w c2 f4 where l: "input_entry_loop typechar False ?c '''' '''' f3 = (w, c2, f4)"
    by (metis surj_pair)
  have lc: "length ?c \<le> 1" by simp
  have n: "c2 \<noteq> '' ''" "CHR '' '' \<notin> set w"
    using input_entry_loop_numeric [OF w3 lc s3 assms(3), of "[]"] l by simp_all
  have "word = w \<and> (c = c2 \<or> (\<exists>f5. py_in (next_char f5) ('','' @ CR) \<and> c = fst (read_one f5)))"
    using assms(4) h l
    by (auto simp: input_entry_def input_entry_tail_def split: if_splits option.splits prod.splits)
  then have ww: "word = w"
    and cc: "c = c2 \<or> (\<exists>f5. py_in (next_char f5) ('','' @ CR) \<and> c = fst (read_one f5))"
    by (rule conjunct1, rule conjunct2)
  from cc have "c \<noteq> '' ''"
  proof
    assume "c = c2"
    with n(1) show ?thesis by simp
  next
    assume "\<exists>f5. py_in (next_char f5) ('','' @ CR) \<and> c = fst (read_one f5)"
    then obtain f5 where "py_in (next_char f5) ('','' @ CR)" and "c = fst (read_one f5)"
      by (elim exE conjE)
    then show ?thesis by (metis read_one_not_space)
  qed
  with ww n(2) show ?thesis by simp
qed

lemma leading_run_spaces:
  assumes "\<forall>x\<in>set xs. x \<noteq> CHR 0x00 \<and> x \<noteq> CHR 0x0A"
  shows "snd (leading_run whitespace_input l (xs @ CHR 0x0D # rest))
           = dropWhile (\<lambda>x. x = CHR '' '') xs @ CHR 0x0D # rest"
  using assms
  by (induction xs arbitrary: l) (auto simp: whitespace_input_def)

lemma filter_dropWhile_space:
  "filter (\<lambda>x. x \<noteq> CHR '' '') (dropWhile (\<lambda>x. x = CHR '' '') xs)
     = filter (\<lambda>x. x \<noteq> CHR '' '') xs"
  by (induction xs) auto

lemma input_entry_loop_numeric_line:
  assumes "typechar \<noteq> values_STR"
  shows "length (next_char f) \<le> 1 \<Longrightarrow> soft_sep f = '''' \<Longrightarrow>
     \<forall>y\<in>set ys. y \<noteq> CHR '','' \<and> y \<noteq> CHR 0x0D \<and> y \<noteq> CHR 0x0A \<and> y \<noteq> CHR 0x00 \<Longrightarrow>
     pending f = drop 1 (ys @ CHR 0x0D # rest) \<Longrightarrow>
     length word + length (filter (\<lambda>y. y \<noteq> CHR '' '') ys) < 255 \<Longrightarrow>
     \<exists>f'. input_entry_loop typechar False (take 1 (ys @ CHR 0x0D # rest)) word '''' f
            = (word @ filter (\<lambda>y. y \<noteq> CHR '' '') ys, CR, f')
          \<and> pending f' = rest"
proof (induction ys arbitrary: word f)
  case Nil
  then show ?case
    by (subst input_entry_loop_unfold) (simp add: scan_goes_on_def)
next
  case (Cons y ys)
  obtain c1 f1 where r1: "read_one f = (c1, f1)" by (cases "read_one f") auto
  have f1: "c1 = take 1 (ys @ CHR 0x0D # rest)" "pending f1 = drop 1 (ys @ CHR 0x0D # rest)"
      "length (next_char f1) \<le> 1" "soft_sep f1 = ''''"
    using read_one_pending [OF Cons.prems(1)] read_one_soft_sep [of f] r1 Cons.prems(2,4)
    by simp_all
  have go: "scan_goes_on typechar False [y] (soft_sep f)"
    using Cons.prems(2,3) by (simp add: scan_goes_on_def)
  show ?case
  proof (cases "y = CHR '' ''")
    case True
    have acc: "scan_accumulate typechar False [y] word '''' = (word, '''')"
      using True assms by (simp add: scan_accumulate_def whitespace_input_def)
    have lw: "length word + length (filter (\<lambda>y. y \<noteq> CHR '' '') ys) < 255"
      using Cons.prems(5) True by simp
    from Cons.IH [OF f1(3,4) _ f1(2) lw] Cons.prems(3)
    obtain f' where "input_entry_loop typechar False (take 1 (ys @ CHR 0x0D # rest)) word '''' f1
            = (word @ filter (\<lambda>y. y \<noteq> CHR '' '') ys, CR, f')" "pending f' = rest"
      by auto
    then show ?thesis
      using go acc r1 f1(1) True lw Cons.prems(3)
      by (subst input_entry_loop_unfold) simp
  next
    case False
    have acc: "scan_accumulate typechar False [y] word '''' = (word @ [y], '''')"
      using False Cons.prems(3) by (simp add: scan_accumulate_def whitespace_input_def)
    have lw: "length (word @ [y]) + length (filter (\<lambda>y. y \<noteq> CHR '' '') ys) < 255"
      using Cons.prems(5) False by simp
    from Cons.IH [OF f1(3,4) _ f1(2) lw] Cons.prems(3)
    obtain f' where "input_entry_loop typechar False (take 1 (ys @ CHR 0x0D # rest)) (word @ [y]) '''' f1
            = ((word @ [y]) @ filter (\<lambda>y. y \<noteq> CHR '' '') ys, CR, f')" "pending f' = rest"
      by auto
    then show ?thesis
      using go acc r1 f1(1) False lw Cons.prems(3)
      by (subst input_entry_loop_unfold) simp
  qed
qed

lemma input_entry_numeric_line:
  assumes "length (next_char f) \<le> 1" and "soft_sep f = ''''" and "typechar \<noteq> values_STR"
    and "pending f = xs @ CR @ rest"
    and "\<forall>x\<in>set xs. x \<noteq> CHR '','' \<and> x \<noteq> CHR 0x0D \<and> x \<noteq> CHR 0x0A \<and> x \<noteq> CHR 0x00"
    and "length (filter (\<lambda>x. x \<noteq> CHR '' '') xs) < 255"
  shows "\<exists>f'. input_entry typechar allow_past_end f
            = Some (Inr (filter (\<lambda>x. x \<noteq> CHR '' '') xs, CR, f'))
          \<and> pending f' = rest"
proof -
  let ?ys = "dropWhile (\<lambda>x. x = CHR '' '') xs"
  have nq: "quoting_applies typechar (pending f) = False"
    using assms(3) by (simp add: quoting_applies_def)
  have aw: "after_whitespace (pending f) = ?ys @ CHR 0x0D # rest"
    using leading_run_spaces [of xs "[]" rest] assms(4,5) by (simp add: after_whitespace_def)
  obtain f3 where h: "input_entry_head typechar f
            = Some (last_skipped (pending f), take 1 (?ys @ CHR 0x0D # rest), False,
                    take 1 (?ys @ CHR 0x0D # rest), f3)"
    and p3: "pending f3 = drop 1 (?ys @ CHR 0x0D # rest)"
    and w3: "length (next_char f3) \<le> 1" and s3: "soft_sep f3 = ''''"
    using input_entry_head_spec [OF assms(1), of typechar] assms(2) by (auto simp: nq aw)
  have ys: "\<forall>y\<in>set ?ys. y \<noteq> CHR '','' \<and> y \<noteq> CHR 0x0D \<and> y \<noteq> CHR 0x0A \<and> y \<noteq> CHR 0x00"
    using assms(5) by (meson set_dropWhileD)
  have ly: "length ('''' :: string) + length (filter (\<lambda>y. y \<noteq> CHR '' '') ?ys) < 255"
    using assms(6) by (simp add: filter_dropWhile_space)
  obtain f4 where l: "input_entry_loop typechar False (take 1 (?ys @ CHR 0x0D # rest)) '''' '''' f3
            = (filter (\<lambda>x. x \<noteq> CHR '' '') xs, CR, f4)" and p4: "pending f4 = rest"
    using input_entry_loop_numeric_line [OF assms(3) w3 s3 ys p3 ly]
    by (auto simp: filter_dropWhile_space)
  define c0 where "c0 = take 1 (?ys @ CHR 0x0D # rest)"
  have ne: "c0 \<noteq> ''''"
    using take_1_empty [of "?ys @ CHR 0x0D # rest"] by (simp add: c0_def)
  show ?thesis
    using h [folded c0_def] l [folded c0_def] p4 ne
    by (simp add: input_entry_def input_entry_tail_def whitespace_input_def)
qed

lemma disk_numeric_1_2:
  "\<exists>f'. input_entry ''%'' False (TextFileBase_init (''1 2'' @ CR) ''D'' ''I'' '''')
          = Some (Inr (''1'', '' '', f'))"
  by (simp add: input_entry_def input_entry_tail_def input_entry_head_def skip_whitespace_stop TextFileBase_init_def
      upper_def read_one_eq shift_lookahead_def whitespace_input_def values_STR_def
      input_entry_loop_unfold scan_goes_on_def scan_accumulate_def)

text \<open>
  C10. On a file with the empty soft separator of \<^verbatim>\<open>InputTextFile\<close>, whose lookahead
  holds at most one character, a field read for a type other than the string type never
  ends at a space: the separator returned is not a space, and the word holds none. When
  the characters to read are a run without comma, CR, LF and NUL followed by CR, the
  word is that run without its spaces (when that is shorter than 255 characters) and the
  separator is the CR; so \<^verbatim>\<open>1 2\<close> and CR give \<^verbatim>\<open>12\<close> with CR. With the soft separator
  of \<^verbatim>\<open>TextFileBase\<close>, the same input gives \<^verbatim>\<open>1\<close> with the space as separator.
\<close>

theorem console_numeric_space:
  assumes "length (next_char f) \<le> 1" and "soft_sep f = ''''" and "typechar \<noteq> values_STR"
  shows "(\<forall>word c f'. input_entry typechar allow_past_end f = Some (Inr (word, c, f'))
            \<longrightarrow> c \<noteq> '' '' \<and> CHR '' '' \<notin> set word)
         \<and> (\<forall>xs rest. pending f = xs @ CR @ rest
              \<and> (\<forall>x\<in>set xs. x \<noteq> CHR '','' \<and> x \<noteq> CHR 0x0D \<and> x \<noteq> CHR 0x0A \<and> x \<noteq> CHR 0x00)
              \<and> length (filter (\<lambda>x. x \<noteq> CHR '' '') xs) < 255
            \<longrightarrow> (\<exists>f'. input_entry typechar allow_past_end f
                        = Some (Inr (filter (\<lambda>x. x \<noteq> CHR '' '') xs, CR, f'))
                      \<and> pending f' = rest))
         \<and> (\<exists>f'. input_entry ''%'' False (TextFileBase_init (''1 2'' @ CR) ''D'' ''I'' '''')
                  = Some (Inr (''1'', '' '', f')))"
proof (intro conjI allI impI)
  fix word c f'
  assume "input_entry typechar allow_past_end f = Some (Inr (word, c, f'))"
  then show "c \<noteq> '' ''" and "CHR '' '' \<notin> set word"
    using input_entry_numeric_separator [OF assms] by simp_all
next
  fix xs rest
  assume a: "pending f = xs @ CR @ rest
      \<and> (\<forall>x\<in>set xs. x \<noteq> CHR '','' \<and> x \<noteq> CHR 0x0D \<and> x \<noteq> CHR 0x0A \<and> x \<noteq> CHR 0x00)
      \<and> length (filter (\<lambda>x. x \<noteq> CHR '' '') xs) < 255"
  show "\<exists>f'. input_entry typechar allow_past_end f
                = Some (Inr (filter (\<lambda>x. x \<noteq> CHR '' '') xs, CR, f'))
              \<and> pending f' = rest"
    by (rule input_entry_numeric_line [OF assms]) (use a in simp_all)
next
  show "\<exists>f'. input_entry ''%'' False (TextFileBase_init (''1 2'' @ CR) ''D'' ''I'' '''')
                  = Some (Inr (''1'', '' '', f'))"
    by (rule disk_numeric_1_2)
qed

theorem console_numeric_space_witness:
  "length (next_char (InputTextFile_init (''1 2'' @ CR))) \<le> 1
   \<and> soft_sep (InputTextFile_init (''1 2'' @ CR)) = ''''
   \<and> ''%'' \<noteq> values_STR
   \<and> pending (InputTextFile_init (''1 2'' @ CR)) = ''1 2'' @ CR
   \<and> (\<exists>f'. input_entry ''%'' False (InputTextFile_init (''1 2'' @ CR))
              = Some (Inr (''12'', CR, f')))"
proof -
  let ?F = "InputTextFile_init (''1 2'' @ CR)"
  have wf: "length (next_char ?F) \<le> 1" and ss: "soft_sep ?F = ''''"
    and p: "pending ?F = ''1 2'' @ CR @ ''''"
    by (simp_all add: InputTextFile_init_def TextFileBase_init_def upper_def pending_def)
  have tc: "''%'' \<noteq> values_STR" by (simp add: values_STR_def)
  have pre: "pending ?F = ''1 2'' @ CR @ ''''
      \<and> (\<forall>x\<in>set ''1 2''. x \<noteq> CHR '','' \<and> x \<noteq> CHR 0x0D \<and> x \<noteq> CHR 0x0A \<and> x \<noteq> CHR 0x00)
      \<and> length (filter (\<lambda>x. x \<noteq> CHR '' '') ''1 2'') < 255"
    using p by simp
  have "\<exists>f'. input_entry ''%'' False ?F
          = Some (Inr (filter (\<lambda>x. x \<noteq> CHR '' '') ''1 2'', CR, f')) \<and> pending f' = ''''"
    by (rule console_numeric_space [OF wf ss tc, of False, THEN conjunct2, THEN conjunct1,
          rule_format, OF pre])
  then show ?thesis using wf ss tc p by auto
qed

section \<open>Properties of writing\<close>

lemma printable_not_CR: "(32::nat) \<le> of_char c \<Longrightarrow> [c] \<noteq> CR"
  by auto

lemma write_char_col_range:
  "1 \<le> col f \<Longrightarrow> col f \<le> 256 \<Longrightarrow> 1 \<le> col (write_char c f) \<and> col (write_char c f) \<le> 256"
  by (simp add: write_char_def)

lemma write_chars_col_range:
  "1 \<le> col f \<Longrightarrow> col f \<le> 256 \<Longrightarrow> 1 \<le> col (write_chars s f) \<and> col (write_chars s f) \<le> 256"
proof (induction s arbitrary: f)
  case Nil
  then show ?case by simp
next
  case (Cons c s)
  then show ?case using write_char_col_range [of f c] by simp
qed

lemma write_char_width: "width (write_char c f) = width f"
  by (simp add: write_char_def)

lemma write_chars_width: "width (write_chars s f) = width f"
  by (induction s arbitrary: f) (simp_all add: write_char_width)

lemma write_char_printable_col:
  "(32::nat) \<le> of_char c \<Longrightarrow> col (write_char c f) = (if col f + 1 = 257 then 1 else col f + 1)"
  by (auto simp: write_char_def)

lemma write_chars_printable_col:
  assumes "\<forall>c\<in>set s. (32::nat) \<le> of_char c" and "1 \<le> col f" and "col f \<le> 256"
  shows "col (write_chars s f) = (col f - 1 + int (length s)) mod 256 + 1"
  using assms
proof (induction s arbitrary: f)
  case Nil
  then show ?case by simp
next
  case (Cons c s)
  have p: "(32::nat) \<le> of_char c" using Cons.prems by simp
  have r: "1 \<le> col (write_char c f)" "col (write_char c f) \<le> 256"
    using write_char_col_range [of f c] Cons.prems by simp_all
  have "col (write_chars s (write_char c f))
          = (col (write_char c f) - 1 + int (length s)) mod 256 + 1"
    using Cons.IH [of "write_char c f"] Cons.prems r by simp
  also have "\<dots> = (col f - 1 + int (length (c # s))) mod 256 + 1"
  proof (cases "col f = 256")
    case True
    then have "col (write_char c f) = 1" using p by (simp add: write_char_printable_col)
    with True show ?thesis by simp
  next
    case False
    then have "col (write_char c f) = col f + 1" using p by (simp add: write_char_printable_col)
    then show ?thesis by (simp add: algebra_simps)
  qed
  finally show ?case by simp
qed

lemma write_col_range:
  assumes "1 \<le> col f" and "col f \<le> 256"
  shows "1 \<le> col (TextFileBase_write s cb f) \<and> col (TextFileBase_write s cb f) \<le> 256"
proof -
  let ?g = "(TextFileBase_write_line '''' f)\<lparr>col := 1\<rparr>"
  have "1 \<le> col ?g \<and> col ?g \<le> 256" by simp
  then show ?thesis
    using assms write_chars_col_range [of ?g s] write_chars_col_range [of f s]
    by (subst (1 2) TextFileBase_write.simps) simp
qed

lemma write_at_col_1:
  "col f = 1 \<Longrightarrow> TextFileBase_write s cb f = write_chars s f"
  by (subst TextFileBase_write.simps) simp

lemma write_no_break: "TextFileBase_write s False f = write_chars s f"
  by (subst TextFileBase_write.simps) simp

lemma scan_width_newline_free:
  "newline_free s \<Longrightarrow> scan_width s w = (w + printable_length s, False)"
  by (induction s arbitrary: w) (auto simp: newline_free_def printable_length_def)

lemma printable_newline_free:
  "\<forall>c\<in>set s. (32::nat) \<le> of_char c \<Longrightarrow> newline_free s"
  by (auto simp: newline_free_def)

lemma printable_printable_length:
  "\<forall>c\<in>set s. (32::nat) \<le> of_char c \<Longrightarrow> printable_length s = int (length s)"
  by (induction s) (simp_all add: printable_length_def)

lemma write_printable_col:
  assumes p: "\<forall>c\<in>set s. (32::nat) \<le> of_char c" and r: "1 \<le> col f" "col f \<le> 256"
  shows "col (TextFileBase_write s cb f)
           = ((if cb \<and> width f \<noteq> 255 \<and> col f \<noteq> 1 \<and> col f - 1 + int (length s) > width f
               then 0 else col f - 1) + int (length s)) mod 256 + 1"
proof -
  let ?g = "(TextFileBase_write_line '''' f)\<lparr>col := 1\<rparr>"
  have sw: "scan_width s 0 = (int (length s), False)"
    using scan_width_newline_free [OF printable_newline_free [OF p], of 0]
      printable_printable_length [OF p] by simp
  have g: "col (write_chars s ?g) = (col ?g - 1 + int (length s)) mod 256 + 1"
    by (rule write_chars_printable_col [OF p]) simp_all
  have h: "col (write_chars s f) = (col f - 1 + int (length s)) mod 256 + 1"
    by (rule write_chars_printable_col [OF p r])
  show ?thesis
    using g h by (subst TextFileBase_write.simps) (simp add: sw)
qed

text \<open>
  C5. A write keeps \<open>col\<close> between 1 and 256. Every character of code 32 or more that
  is written moves \<open>col\<close> to the next column, and from 256 back to 1, whatever the width
  of the file. So a string of \<open>n\<close> such characters, written with or without
  \<^verbatim>\<open>can_break\<close>, takes \<open>col\<close> to \<open>(b + n) mod 256 + 1\<close>, where \<open>b\<close> is 0 when the write
  first breaks the line (it can break, the width is not 255, \<open>col\<close> is not 1 and
  \<open>col - 1 + n\<close> passes the width) and \<open>col - 1\<close> when it does not; the width has no other
  part in it. In particular 256 of them written at column 1 bring \<open>col\<close> back to 1, at
  width 255 as at any other width.
\<close>

theorem col_wraps_at_257:
  "(1 \<le> col f \<and> col f \<le> 256 \<longrightarrow>
      1 \<le> col (TextFileBase_write s cb f) \<and> col (TextFileBase_write s cb f) \<le> 256)
   \<and> ((32::nat) \<le> of_char c \<longrightarrow>
         col (write_char c f) = (if col f + 1 = 257 then 1 else col f + 1)
         \<and> col (TextFileBase_write [c] cb f)
             = (if cb \<and> width f \<noteq> 255 \<and> col f \<noteq> 1 \<and> col f > width f then 2
                else if col f + 1 = 257 then 1 else col f + 1))
   \<and> ((\<forall>c\<in>set s. (32::nat) \<le> of_char c) \<and> 1 \<le> col f \<and> col f \<le> 256 \<longrightarrow>
         col (TextFileBase_write s cb f)
           = ((if cb \<and> width f \<noteq> 255 \<and> col f \<noteq> 1 \<and> col f - 1 + int (length s) > width f
               then 0 else col f - 1) + int (length s)) mod 256 + 1)
   \<and> ((\<forall>c\<in>set s. (32::nat) \<le> of_char c) \<and> length s = 256 \<and> col f = 1 \<longrightarrow>
         col (TextFileBase_write s cb f) = 1)"
proof (intro conjI impI)
  assume "1 \<le> col f \<and> col f \<le> 256"
  then show "1 \<le> col (TextFileBase_write s cb f)" "col (TextFileBase_write s cb f) \<le> 256"
    using write_col_range [of f s cb] by simp_all
next
  assume "(32::nat) \<le> of_char c"
  then show "col (write_char c f) = (if col f + 1 = 257 then 1 else col f + 1)"
    by (rule write_char_printable_col)
next
  assume p: "(32::nat) \<le> of_char c"
  then have nl: "[c] \<noteq> CR" "[c] \<noteq> LF" by auto
  show "col (TextFileBase_write [c] cb f)
          = (if cb \<and> width f \<noteq> 255 \<and> col f \<noteq> 1 \<and> col f > width f then 2
             else if col f + 1 = 257 then 1 else col f + 1)"
    using p nl by (subst TextFileBase_write.simps) (simp add: write_char_printable_col)
next
  assume "(\<forall>c\<in>set s. (32::nat) \<le> of_char c) \<and> 1 \<le> col f \<and> col f \<le> 256"
  then show "col (TextFileBase_write s cb f)
           = ((if cb \<and> width f \<noteq> 255 \<and> col f \<noteq> 1 \<and> col f - 1 + int (length s) > width f
               then 0 else col f - 1) + int (length s)) mod 256 + 1"
    using write_printable_col [of s f cb] by simp
next
  assume a: "(\<forall>c\<in>set s. (32::nat) \<le> of_char c) \<and> length s = 256 \<and> col f = 1"
  then have "col (write_chars s f) = (col f - 1 + int (length s)) mod 256 + 1"
    by (intro write_chars_printable_col) simp_all
  with a show "col (TextFileBase_write s cb f) = 1"
    by (simp add: write_at_col_1)
qed

theorem col_wraps_at_257_witness:
  "width (TextFileBase_init '''' ''D'' ''O'' '''') = 255
   \<and> col (TextFileBase_init '''' ''D'' ''O'' '''') = 1
   \<and> col (TextFileBase_write (replicate 256 (CHR ''A'')) True
            (TextFileBase_init '''' ''D'' ''O'' '''')) = 1
   \<and> col (TextFileBase_write ''A'' False (TextFileBase_init '''' ''D'' ''O'' '''')) = 2
   \<and> col (TextFileBase_write (replicate 300 (CHR ''A'')) True
            (TextFileBase_init '''' ''D'' ''O'' '''')) = 45
   \<and> col (TextFileBase_write ''HELLO'' True
            ((TextFileBase_init '''' ''D'' ''O'' '''')\<lparr>width := 10, col := 6\<rparr>)) = 11
   \<and> col (TextFileBase_write ''HELLO'' True
            ((TextFileBase_init '''' ''D'' ''O'' '''')\<lparr>width := 10, col := 8\<rparr>)) = 6
   \<and> col (TextFileBase_write ''HELLO'' False
            ((TextFileBase_init '''' ''D'' ''O'' '''')\<lparr>width := 10, col := 8\<rparr>)) = 13
   \<and> col (TextFileBase_write ''A'' True
            ((TextFileBase_init '''' ''D'' ''O'' '''')\<lparr>width := 10, col := 256\<rparr>)) = 2
   \<and> col (TextFileBase_write ''A'' False
            ((TextFileBase_init '''' ''D'' ''O'' '''')\<lparr>width := 10, col := 256\<rparr>)) = 1"
  using col_wraps_at_257 [where f = "TextFileBase_init '''' ''D'' ''O'' ''''"
      and s = "replicate 256 (CHR ''A'')" and cb = True and c = "CHR ''A''"]
    col_wraps_at_257 [where f = "TextFileBase_init '''' ''D'' ''O'' ''''"
      and s = "replicate 300 (CHR ''A'')" and cb = True and c = "CHR ''A''"]
    col_wraps_at_257 [where f = "TextFileBase_init '''' ''D'' ''O'' ''''"
      and s = "''A''" and cb = False and c = "CHR ''A''"]
    col_wraps_at_257 [where f = "(TextFileBase_init '''' ''D'' ''O'' '''')\<lparr>width := 10, col := 6\<rparr>"
      and s = "''HELLO''" and cb = True and c = "CHR ''A''"]
    col_wraps_at_257 [where f = "(TextFileBase_init '''' ''D'' ''O'' '''')\<lparr>width := 10, col := 8\<rparr>"
      and s = "''HELLO''" and cb = True and c = "CHR ''A''"]
    col_wraps_at_257 [where f = "(TextFileBase_init '''' ''D'' ''O'' '''')\<lparr>width := 10, col := 8\<rparr>"
      and s = "''HELLO''" and cb = False and c = "CHR ''A''"]
    col_wraps_at_257 [where f = "(TextFileBase_init '''' ''D'' ''O'' '''')\<lparr>width := 10, col := 256\<rparr>"
      and s = "''A''" and cb = True and c = "CHR ''A''"]
    col_wraps_at_257 [where f = "(TextFileBase_init '''' ''D'' ''O'' '''')\<lparr>width := 10, col := 256\<rparr>"
      and s = "''A''" and cb = False and c = "CHR ''A''"]
  by (simp add: TextFileBase_init_def upper_def)

lemma written_write_chars: "written (write_chars s f) = written f @ s"
  by (induction s arbitrary: f) (simp_all add: write_char_def)

lemma written_write_line_empty:
  "written (TextFileBase_write_line '''' f) = written f @ CR"
  by (simp add: TextFileBase_write_line.simps, subst TextFileBase_write.simps)
     (simp add: written_write_chars write_char_def)

lemma written_write_newline_free:
  assumes "newline_free s"
  shows "written (TextFileBase_write s True f)
           = written f
             @ (if width f \<noteq> 255 \<and> col f \<noteq> 1 \<and> col f - 1 + printable_length s > width f
                then CR else '''')
             @ s"
  using assms
  by (subst TextFileBase_write.simps)
     (simp add: scan_width_newline_free written_write_chars written_write_line_empty)

text \<open>
  C4, as amended. For a string \<open>s\<close> without CR and LF, of printable length \<open>L\<close>, written
  with \<^verbatim>\<open>can_break\<close> at column \<open>c\<close> of a file of width \<open>w\<close>: the bytes written are one CR
  and then \<open>s\<close> when \<open>w \<noteq> 255\<close>, \<open>c \<noteq> 1\<close> and \<open>c - 1 + L > w\<close>, and \<open>s\<close> alone
  otherwise. So no break is inserted iff \<open>c - 1 + L \<le> w\<close> or \<open>w = 255\<close> or \<open>c = 1\<close>, and
  exactly one iff \<open>c - 1 + L > w\<close>, \<open>w \<noteq> 255\<close> and \<open>c \<noteq> 1\<close>.
\<close>

theorem write_break_rule:
  assumes "newline_free s"
  shows "written (TextFileBase_write s True f)
           = written f
             @ (if width f \<noteq> 255 \<and> col f \<noteq> 1 \<and> col f - 1 + printable_length s > width f
                then CR else '''')
             @ s
         \<and> (written (TextFileBase_write s True f) = written f @ s
              \<longleftrightarrow> col f - 1 + printable_length s \<le> width f \<or> width f = 255 \<or> col f = 1)
         \<and> (written (TextFileBase_write s True f) = written f @ CR @ s
              \<longleftrightarrow> col f - 1 + printable_length s > width f \<and> width f \<noteq> 255 \<and> col f \<noteq> 1)"
  using written_write_newline_free [OF assms, of f] by auto

theorem write_break_rule_witness:
  "newline_free ''HELLO''
   \<and> written (TextFileBase_write ''HELLO'' True
         ((TextFileBase_init '''' ''D'' ''O'' '''')\<lparr>width := 10, col := 8\<rparr>)) = CR @ ''HELLO''
   \<and> written (TextFileBase_write ''HELLO'' True
         ((TextFileBase_init '''' ''D'' ''O'' '''')\<lparr>width := 10, col := 6\<rparr>)) = ''HELLO''"
proof -
  have nf: "newline_free ''HELLO''" by (simp add: newline_free_def)
  show ?thesis
    using nf
      write_break_rule [OF nf, of "(TextFileBase_init '''' ''D'' ''O'' '''')\<lparr>width := 10, col := 8\<rparr>"]
      write_break_rule [OF nf, of "(TextFileBase_init '''' ''D'' ''O'' '''')\<lparr>width := 10, col := 6\<rparr>"]
    by (simp add: TextFileBase_init_def upper_def printable_length_def)
qed

text \<open>
  C4 as the claim states it fails at column 1: eleven printable characters written to a
  file of width 10 at column 1 overflow the width, and no break is inserted. It fails at
  width 255 too: a hundred characters at column 200 pass 255 and no break is inserted.
\<close>

theorem write_break_rule_counterexample:
  "newline_free (replicate 11 (CHR ''A''))
   \<and> written (TextFileBase_write (replicate 11 (CHR ''A'')) True
         (set_width 10 (TextFileBase_init '''' ''D'' ''O'' '''')))
       = written (set_width 10 (TextFileBase_init '''' ''D'' ''O'' '''')) @ replicate 11 (CHR ''A'')
   \<and> col (set_width 10 (TextFileBase_init '''' ''D'' ''O'' '''')) - 1
         + printable_length (replicate 11 (CHR ''A''))
       > width (set_width 10 (TextFileBase_init '''' ''D'' ''O'' ''''))
   \<and> width (set_width 10 (TextFileBase_init '''' ''D'' ''O'' '''')) \<noteq> 255
   \<and> newline_free (replicate 100 (CHR ''A''))
   \<and> written (TextFileBase_write (replicate 100 (CHR ''A'')) True
         ((TextFileBase_init '''' ''D'' ''O'' '''')\<lparr>col := 200\<rparr>))
       = written ((TextFileBase_init '''' ''D'' ''O'' '''')\<lparr>col := 200\<rparr>)
         @ replicate 100 (CHR ''A'')
   \<and> \<not> col ((TextFileBase_init '''' ''D'' ''O'' '''')\<lparr>col := 200\<rparr>) - 1
           + printable_length (replicate 100 (CHR ''A''))
         \<le> width ((TextFileBase_init '''' ''D'' ''O'' '''')\<lparr>col := 200\<rparr>)"
proof -
  have nf: "newline_free (replicate 11 (CHR ''A''))" by (simp add: newline_free_def)
  have nf2: "newline_free (replicate 100 (CHR ''A''))" by (simp add: newline_free_def)
  show ?thesis
    using nf nf2
      written_write_newline_free [OF nf, of "set_width 10 (TextFileBase_init '''' ''D'' ''O'' '''')"]
      written_write_newline_free [OF nf2, of "(TextFileBase_init '''' ''D'' ''O'' '''')\<lparr>col := 200\<rparr>"]
    by (simp add: TextFileBase_init_def upper_def printable_length_def set_width_def)
qed

section \<open>Properties of the live tokenizer\<close>

lemma KYBDFile_read_one_nonempty:
  "KYBDFile_read_one ea kb = Some (c, kb1) \<Longrightarrow> c \<noteq> ''''"
  by (induction kb) (auto split: if_splits)

lemma input_entry_realtime_head_nonempty:
  assumes "input_entry_realtime_head ea typechar kb il = Some (quoted, c, kb2, il1)"
  shows "c \<noteq> ''''"
proof (cases "il = ''''")
  case True
  then obtain c0 kb1 where r0: "KYBDFile_read_one ea kb = Some (c0, kb1)"
    using assms by (auto simp: input_entry_realtime_head_def split: option.splits)
  show ?thesis
  proof (cases "c0 = DQUOTE \<and> typechar = values_STR")
    case q: True
    with True r0 assms have "KYBDFile_read_one ea kb1 = Some (c, kb2)"
      by (auto simp: input_entry_realtime_head_def split: option.splits prod.splits)
    then show ?thesis by (rule KYBDFile_read_one_nonempty)
  next
    case q: False
    with True r0 assms have "c = c0"
      by (simp add: input_entry_realtime_head_def split: if_splits)
    with r0 show ?thesis using KYBDFile_read_one_nonempty by blast
  qed
next
  case False
  show ?thesis
  proof (cases "il = DQUOTE \<and> typechar = values_STR")
    case q: True
    with False assms have "KYBDFile_read_one ea kb = Some (c, kb2)"
      by (auto simp: input_entry_realtime_head_def split: option.splits prod.splits)
    then show ?thesis by (rule KYBDFile_read_one_nonempty)
  next
    case q: False
    with False assms have "c = il"
      by (simp add: input_entry_realtime_head_def split: if_splits)
    with False show ?thesis by simp
  qed
qed

lemma skip_whitespace_eof:
  "next_char f = '''' \<Longrightarrow> skip_whitespace ws f = Some ('''', f)"
  by (subst skip_whitespace_def, subst skip_whitespace_loop.simps) simp

text \<open>
  C3. \<^verbatim>\<open>input_entry_realtime\<close>, bound to the keyboard file, never raises
  INPUT_PAST_END, whatever the keys to come, the push-back slot, the type and
  \<^verbatim>\<open>allow_past_end\<close>: \<^verbatim>\<open>KYBDFile.read_one\<close> returns no empty string, so the test before
  the raise never holds. The buffered \<^verbatim>\<open>input_entry\<close> does raise it, on an empty file.
\<close>

theorem realtime_never_input_past_end:
  "input_entry_realtime ea typechar allow_past_end kb f \<noteq> Some (Inl INPUT_PAST_END)
   \<and> input_entry typechar False (TextFileBase_init '''' ''D'' ''I'' '''')
       = Some (Inl INPUT_PAST_END)"
proof
  show "input_entry_realtime ea typechar allow_past_end kb f \<noteq> Some (Inl INPUT_PAST_END)"
  proof (cases "input_entry_realtime_head ea typechar kb (input_last f)")
    case None
    then show ?thesis by (simp add: input_entry_realtime_def)
  next
    case (Some r)
    obtain quoted c kb2 il where r: "r = (quoted, c, kb2, il)" by (cases r) auto
    with Some have "c \<noteq> ''''" by (auto dest: input_entry_realtime_head_nonempty)
    with Some r show ?thesis
      by (simp add: input_entry_realtime_def split: option.splits)
  qed
next
  have nc: "next_char (TextFileBase_init '''' ''D'' ''I'' '''') = ''''"
    by (simp add: TextFileBase_init_def upper_def)
  have hd: "input_entry_head typechar (TextFileBase_init '''' ''D'' ''I'' '''')
              = Some ('''', '''', False, '''', TextFileBase_init '''' ''D'' ''I'' '''')"
    by (simp add: input_entry_head_def skip_whitespace_eof [OF nc] read_one_eq nc)
  show "input_entry typechar False (TextFileBase_init '''' ''D'' ''I'' '''')
          = Some (Inl INPUT_PAST_END)"
    by (simp add: input_entry_def input_entry_tail_def hd)
qed

lemma input_entry_realtime_loop_unfold:
  "input_entry_realtime_loop ea typechar quoted c word blanks parsing_trail kb il =
     (if realtime_goes_on quoted c
      then
        if \<not> (c = DQUOTE \<and> quoted) \<and> c = LF \<and> \<not> quoted then
          (case KYBDFile_read_one ea kb of
             None \<Rightarrow> None
           | Some (c1, kb1) \<Rightarrow>
               if c1 = CR
               then (case KYBDFile_read_one ea kb1 of
                       None \<Rightarrow> None
                     | Some (c2, kb2) \<Rightarrow>
                         input_entry_realtime_loop ea typechar quoted c2 word blanks
                           parsing_trail kb2 il)
               else input_entry_realtime_loop ea typechar quoted c1 word blanks
                      parsing_trail kb1 il)
        else
          (case realtime_accumulate typechar quoted c word blanks parsing_trail of
             (word1, blanks1, parsing_trail1) \<Rightarrow>
               if length word1 + length blanks1 \<ge> 255 then Some (word1, c, kb, il)
               else (case KYBDFile_read_one ea kb of
                       None \<Rightarrow> None
                     | Some (c1, kb1) \<Rightarrow>
                         if parsing_trail1 \<and> \<not> py_in c1 whitespace_input
                         then Some (word1, c1, kb1, (if c1 \<noteq> '','' \<and> c1 \<noteq> CR then c1 else il))
                         else input_entry_realtime_loop ea typechar quoted c1 word1 blanks1
                                (parsing_trail1 \<or> (typechar \<noteq> values_STR \<and> c1 = '' ''))
                                kb1 il))
      else Some (word, c, kb, il))"
  unfolding realtime_goes_on_def realtime_accumulate_def
  by (rule input_entry_realtime_loop.simps)

lemma KYBDFile_read_one_clean:
  assumes "KYBDFile_read_one ea kb = Some (c, kb1)"
    and "\<forall>k\<in>set kb. nul_clean (translated ea k)"
  shows "nul_clean c \<and> (\<forall>k\<in>set kb1. nul_clean (translated ea k))"
  using assms
  by (induction kb) (auto simp: translated_def split: if_splits)

lemma realtime_accumulate_nul:
  assumes "nul_clean c" and "CHR 0x00 \<notin> set word" and "CHR 0x00 \<notin> set blanks"
    and "realtime_accumulate typechar quoted c word blanks pt = (word1, blanks1, pt1)"
  shows "CHR 0x00 \<notin> set word1 \<and> CHR 0x00 \<notin> set blanks1"
  using assms by (auto simp: realtime_accumulate_def nul_clean_def split: if_splits)

lemma input_entry_realtime_loop_nul:
  "nul_clean c \<Longrightarrow> \<forall>k\<in>set kb. nul_clean (translated ea k) \<Longrightarrow>
   CHR 0x00 \<notin> set word \<Longrightarrow> CHR 0x00 \<notin> set blanks \<Longrightarrow>
   input_entry_realtime_loop ea typechar quoted c word blanks parsing_trail kb il
     = Some (w, c', kb', il') \<Longrightarrow>
   CHR 0x00 \<notin> set w"
proof (induction ea typechar quoted c word blanks parsing_trail kb il
       rule: input_entry_realtime_loop.induct)
  case (1 ea typechar quoted c word blanks parsing_trail kb il)
  note cc = "1.prems"(1) and ck = "1.prems"(2) and nw = "1.prems"(3) and nb = "1.prems"(4)
    and res = "1.prems"(5)
  show ?case
  proof (cases "realtime_goes_on quoted c")
    case False
    then show ?thesis using nw res by (subst (asm) input_entry_realtime_loop_unfold) simp
  next
    case go: True
    note cont = go [unfolded realtime_goes_on_def]
    show ?thesis
    proof (cases "\<not> (c = DQUOTE \<and> quoted) \<and> c = LF \<and> \<not> quoted")
      case lf: True
      from res go lf obtain c1 kb1 where r1: "KYBDFile_read_one ea kb = Some (c1, kb1)"
        by (subst (asm) input_entry_realtime_loop_unfold) (auto split: option.splits)
      have k1: "nul_clean c1" "\<forall>k\<in>set kb1. nul_clean (translated ea k)"
        using KYBDFile_read_one_clean [OF r1 ck] by simp_all
      show ?thesis
      proof (cases "c1 = CR")
        case True
        from res go lf r1 True obtain c2 kb2 where r2: "KYBDFile_read_one ea kb1 = Some (c2, kb2)"
          by (subst (asm) input_entry_realtime_loop_unfold) (auto split: option.splits)
        have k2: "nul_clean c2" "\<forall>k\<in>set kb2. nul_clean (translated ea k)"
          using KYBDFile_read_one_clean [OF r2 k1(2)] by simp_all
        have e: "input_entry_realtime_loop ea typechar quoted c2 word blanks parsing_trail kb2 il
                   = Some (w, c', kb', il')"
          using res go lf r1 True r2
          by (subst (asm) input_entry_realtime_loop_unfold) auto
        show ?thesis
          by (rule "1.IH"(1) [OF cont lf r1 refl True r2 refl k2 nw nb e])
      next
        case False
        have e: "input_entry_realtime_loop ea typechar quoted c1 word blanks parsing_trail kb1 il
                   = Some (w, c', kb', il')"
          using res go lf r1 False
          by (subst (asm) input_entry_realtime_loop_unfold) auto
        show ?thesis
          by (rule "1.IH"(2) [OF cont lf r1 refl False k1 nw nb e])
      qed
    next
      case nlf: False
      obtain word1 blanks1 pt1 where wb:
        "realtime_accumulate typechar quoted c word blanks parsing_trail = (word1, blanks1, pt1)"
        by (metis surj_pair)
      note wb' = wb [unfolded realtime_accumulate_def, symmetric]
      have n1: "CHR 0x00 \<notin> set word1" "CHR 0x00 \<notin> set blanks1"
        using realtime_accumulate_nul [OF cc nw nb wb] by simp_all
      show ?thesis
      proof (cases "length word1 + length blanks1 \<ge> 255")
        case True
        then show ?thesis
          using res go nlf wb n1
          by (subst (asm) input_entry_realtime_loop_unfold) auto
      next
        case short: False
        from res go nlf wb short obtain c1 kb1 where r1: "KYBDFile_read_one ea kb = Some (c1, kb1)"
          by (subst (asm) input_entry_realtime_loop_unfold) (auto split: option.splits)
        have k1: "nul_clean c1" "\<forall>k\<in>set kb1. nul_clean (translated ea k)"
          using KYBDFile_read_one_clean [OF r1 ck] by simp_all
        show ?thesis
        proof (cases "pt1 \<and> \<not> py_in c1 whitespace_input")
          case True
          then show ?thesis
            using res go nlf wb short r1 n1
            by (subst (asm) input_entry_realtime_loop_unfold) auto
        next
          case False
          have e: "input_entry_realtime_loop ea typechar quoted c1 word1 blanks1
                     (pt1 \<or> (typechar \<noteq> values_STR \<and> c1 = '' '')) kb1 il
                   = Some (w, c', kb', il')"
            using res go nlf wb short r1 False
            by (subst (asm) input_entry_realtime_loop_unfold) auto
          show ?thesis
            by (rule "1.IH"(3) [OF cont nlf wb' refl short r1 refl False k1 n1 e])
        qed
      qed
    qed
  qed
qed

lemma input_entry_realtime_head_clean:
  assumes "input_entry_realtime_head ea typechar kb il = Some (quoted, c, kb2, il1)"
    and "nul_clean il" and "\<forall>k\<in>set kb. nul_clean (translated ea k)"
  shows "nul_clean c \<and> (\<forall>k\<in>set kb2. nul_clean (translated ea k))"
proof -
  obtain c0 kb1 where s0: "(if il \<noteq> '''' then Some (il, kb, '''')
            else (case KYBDFile_read_one ea kb of
                    None \<Rightarrow> None
                  | Some (c, kb1) \<Rightarrow> Some (c, kb1, il))) = Some (c0, kb1, il1)"
    using assms(1) by (auto simp: input_entry_realtime_head_def split: option.splits if_splits)
  have k0: "nul_clean c0 \<and> (\<forall>k\<in>set kb1. nul_clean (translated ea k))"
  proof (cases "il = ''''")
    case True
    with s0 have "KYBDFile_read_one ea kb = Some (c0, kb1)" by (auto split: option.splits)
    then show ?thesis using KYBDFile_read_one_clean assms(3) by blast
  next
    case False
    with s0 assms(2,3) show ?thesis by simp
  qed
  show ?thesis
  proof (cases "c0 = DQUOTE \<and> typechar = values_STR")
    case True
    with assms(1) s0 have "KYBDFile_read_one ea kb1 = Some (c, kb2)"
      by (auto simp: input_entry_realtime_head_def split: option.splits)
    then show ?thesis using KYBDFile_read_one_clean k0 by blast
  next
    case False
    with assms(1) s0 have "c = c0 \<and> kb2 = kb1"
      by (auto simp: input_entry_realtime_head_def split: option.splits)
    with k0 show ?thesis by simp
  qed
qed

lemma input_entry_realtime_word_nul_free:
  assumes "nul_clean (input_last g)" and "\<forall>k\<in>set kb. nul_clean (translated ea k)"
    and "input_entry_realtime ea typechar allow_past_end kb g = Some (Inr (word, c, kb', g'))"
  shows "CHR 0x00 \<notin> set word"
proof -
  obtain quoted c0 kb2 il where h:
    "input_entry_realtime_head ea typechar kb (input_last g) = Some (quoted, c0, kb2, il)"
    using assms(3) by (auto simp: input_entry_realtime_def split: option.splits)
  have k: "nul_clean c0" "\<forall>k\<in>set kb2. nul_clean (translated ea k)"
    using input_entry_realtime_head_clean [OF h assms(1,2)] by simp_all
  obtain c2 il1 where l:
    "input_entry_realtime_loop ea typechar quoted c0 '''' '''' False kb2 il = Some (word, c2, kb', il1)"
    using assms(3) h by (auto simp: input_entry_realtime_def split: option.splits if_splits)
  show ?thesis
    by (rule input_entry_realtime_loop_nul [OF k _ _ l]) simp_all
qed

text \<open>
  C7, as amended. The word the buffered \<^verbatim>\<open>input_entry\<close> returns holds no NUL, for every
  file whose lookahead holds at most one character. The word \<^verbatim>\<open>input_entry_realtime\<close>
  returns holds no NUL when the push-back slot and every key code to come, as
  \<^verbatim>\<open>read_one\<close> translates it, are clean of NUL: the one character NUL, or a string
  without NUL. In both, \<^verbatim>\<open>A\<close>, NUL, \<^verbatim>\<open>B\<close> gives \<^verbatim>\<open>AB\<close>.
\<close>

theorem nul_dropped:
  "(length (next_char f) \<le> 1 \<and> input_entry typechar allow_past_end f = Some (Inr (word, c, f'))
       \<longrightarrow> CHR 0x00 \<notin> set word)
   \<and> (nul_clean (input_last g) \<and> (\<forall>k\<in>set kb. nul_clean (translated ea k))
        \<and> input_entry_realtime ea rtypechar rallow kb g = Some (Inr (rword, rc, kb', g'))
       \<longrightarrow> CHR 0x00 \<notin> set rword)"
  using input_entry_word_nul_free input_entry_realtime_word_nul_free by blast

lemma realtime_A_NUL_B:
  "input_entry_realtime ibm_eascii values_STR False [''A'', NUL, ''B'', CR] KYBDFile_init
     = Some (Inr (''AB'', CR, [], KYBDFile_init\<lparr>input_last := ''''\<rparr>))"
  by (simp add: input_entry_realtime_def input_entry_realtime_head_def
      input_entry_realtime_loop.simps KYBDFile_init_def whitespace_input_def values_STR_def
      translated_def input_replace_def input_replace_items_def ibm_eascii_def
      text_file.defs kybd_file.defs TextFileBase_init_def upper_def nullstream_def)

theorem nul_dropped_witness:
  "length (next_char (TextFileBase_init (''A'' @ NUL @ ''B'') ''D'' ''I'' '''')) \<le> 1
   \<and> input_entry values_STR False (TextFileBase_init (''A'' @ NUL @ ''B'') ''D'' ''I'' '''')
     = Some (Inr (''AB'', '''',
         \<lparr>fhandle = '''', written = '''', filetype = ''D'', mode = ''I'', width = 255, col = 1,
          next_char = '''', cur_char = ''B'', last_char = NUL, soft_sep = '' ''\<rparr>))
   \<and> nul_clean (input_last KYBDFile_init)
   \<and> nul_clean (translated ibm_eascii ''A'') \<and> nul_clean (translated ibm_eascii NUL)
   \<and> nul_clean (translated ibm_eascii ''B'') \<and> nul_clean (translated ibm_eascii CR)
   \<and> input_entry_realtime ibm_eascii values_STR False [''A'', NUL, ''B'', CR] KYBDFile_init
     = Some (Inr (''AB'', CR, [], KYBDFile_init\<lparr>input_last := ''''\<rparr>))
   \<and> CHR 0x00 \<notin> set ''AB''"
  using nul_dropped [where f = "TextFileBase_init (''A'' @ NUL @ ''B'') ''D'' ''I'' ''''"
      and typechar = values_STR and allow_past_end = False and word = "''AB''" and c = "[]"
      and g = KYBDFile_init and kb = "[''A'', NUL, ''B'', CR]" and ea = ibm_eascii
      and rtypechar = values_STR and rallow = False and rword = "''AB''" and rc = CR]
    buffered_A_NUL_B realtime_A_NUL_B next_char_init [of "''A'' @ NUL @ ''B''" "''D''" "''I''"]
  by (simp add: nul_clean_def translated_def input_replace_def input_replace_items_def
      ibm_eascii_def KYBDFile_init_def text_file.defs kybd_file.defs)

text \<open>
  C7 as the claim states it fails on the keyboard file: the code of an extended key that
  \<^verbatim>\<open>_input_replace\<close> does not translate (here F11, NUL and 0x85) is not the string NUL,
  so it goes into the word with its NUL.
\<close>

theorem nul_dropped_counterexample:
  "input_entry_realtime ibm_eascii values_STR False [[CHR 0x00, CHR 0x85], CR] KYBDFile_init
     = Some (Inr ([CHR 0x00, CHR 0x85], CR, [], KYBDFile_init\<lparr>input_last := ''''\<rparr>))
   \<and> CHR 0x00 \<in> set [CHR 0x00, CHR 0x85]"
  by (simp add: input_entry_realtime_def input_entry_realtime_head_def
      input_entry_realtime_loop.simps KYBDFile_init_def whitespace_input_def values_STR_def
      translated_def input_replace_def input_replace_items_def ibm_eascii_def
      text_file.defs kybd_file.defs TextFileBase_init_def upper_def nullstream_def)

section \<open>Properties of the devices\<close>

lemma open_clone_not_master: "\<not> is_master (open_clone x d ftype md rl)"
  by (cases x) (simp_all add: KYBDFile_open_clone_def SCRNFile_open_clone_def)

text \<open>
  C8. \<^verbatim>\<open>Device.open\<close> raises DEVICE_UNAVAILABLE when the device has no master file;
  otherwise it raises BAD_FILE_MODE when the mode is not in \<^verbatim>\<open>allowed_modes\<close>; otherwise
  it returns a reference to a new file, the one \<^verbatim>\<open>open_clone\<close> of the master file made,
  which is not a master; the device and every file there was are as before.
\<close>

theorem Device_open_result:
  "(device_file dev = None \<longrightarrow> Device_open dev ftype md rl w = Inl DEVICE_UNAVAILABLE)
   \<and> (device_file dev \<noteq> None \<and> \<not> py_in md (allowed_modes dev)
        \<longrightarrow> Device_open dev ftype md rl w = Inl BAD_FILE_MODE)
   \<and> (\<forall>m. device_file dev = Some m \<and> py_in md (allowed_modes dev)
        \<longrightarrow> Device_open dev ftype md rl w
            = Inr (length (files w), dev,
                   w\<lparr>files := files w @ [open_clone (files w ! m) (display w) ftype md rl]\<rparr>)
          \<and> \<not> is_master (open_clone (files w ! m) (display w) ftype md rl))"
  by (auto simp: Device_open_def open_clone_not_master)

theorem Device_open_result_witness:
  "Device_open Device_init ''D'' ''O'' 128 (session_init display80 [])
     = Inl DEVICE_UNAVAILABLE
   \<and> Device_open SCRNDevice_init ''D'' ''I'' 128 (session_init display80 [])
     = Inl BAD_FILE_MODE
   \<and> Device_open SCRNDevice_init ''D'' ''O'' 128 (session_init display80 [])
     = Inr (2, SCRNDevice_init,
            \<lparr>files = [SCRNFile (SCRNFile_init display80), KYBDFile KYBDFile_init,
                      SCRNFile (SCRNFile_open_clone display80 ''D'' ''O'' 128)],
             display = display80, keyboard = []\<rparr>)"
  using Device_open_result [of Device_init "''D''" "''O''" 128 "session_init display80 []"]
    Device_open_result [of SCRNDevice_init "''D''" "''I''" 128 "session_init display80 []"]
    Device_open_result [of SCRNDevice_init "''D''" "''O''" 128 "session_init display80 []"]
  by (simp add: Device_init_def SCRNDevice_init_def session_init_def)

text \<open>
  C9. \<^verbatim>\<open>set_width\<close> of a file that is not a master leaves the display, the keyboard,
  every other file object and the width of every other file, the master's too, as they
  were; \<^verbatim>\<open>set_width\<close> of a master file hands the new width to \<^verbatim>\<open>display.set_width\<close>,
  and leaves the file objects as they were.
\<close>

theorem set_width_frame:
  "(\<not> is_master (files w ! a) \<longrightarrow>
      display (file_set_width dsw n a w) = display w
      \<and> keyboard (file_set_width dsw n a w) = keyboard w
      \<and> length (files (file_set_width dsw n a w)) = length (files w)
      \<and> (\<forall>b. b \<noteq> a \<longrightarrow>
            files (file_set_width dsw n a w) ! b = files w ! b
            \<and> file_width (file_set_width dsw n a w) b = file_width w b))
   \<and> (is_master (files w ! a) \<longrightarrow>
         display (file_set_width dsw n a w) = dsw n (display w)
         \<and> files (file_set_width dsw n a w) = files w)"
  by (cases "files w ! a")
     (auto simp: file_set_width_def KYBDFile_set_width_def SCRNFile_set_width_def
        file_width_def split: device_file_obj.splits)

theorem set_width_frame_witness:
  "\<not> is_master (files session_with_clones ! 2)
   \<and> display (file_set_width set_mode_width 40 2 session_with_clones)
       = display session_with_clones
   \<and> file_width (file_set_width set_mode_width 40 2 session_with_clones) 0
       = file_width session_with_clones 0
   \<and> file_width (file_set_width set_mode_width 40 2 session_with_clones) 2 = 40
   \<and> \<not> is_master (files session_with_clones ! 3)
   \<and> file_set_width set_mode_width 40 3 session_with_clones = session_with_clones
   \<and> is_master (files session_with_clones ! 0)
   \<and> display (file_set_width set_mode_width 40 0 session_with_clones)
       = set_mode_width 40 (display session_with_clones)
   \<and> file_width (file_set_width set_mode_width 40 0 session_with_clones) 0 = 40"
  using set_width_frame [where w = session_with_clones and a = 2 and dsw = set_mode_width
      and n = 40]
    set_width_frame [where w = session_with_clones and a = 3 and dsw = set_mode_width
      and n = 40]
    set_width_frame [where w = session_with_clones and a = 0 and dsw = set_mode_width
      and n = 40]
  by (simp add: session_with_clones_def file_set_width_def KYBDFile_set_width_def
      SCRNFile_set_width_def file_width_def SCRNFile_open_clone_def SCRNFile_init_def
      KYBDFile_open_clone_def set_mode_width_def display80_def)

end
